theory Spec2Isabelle
  imports Main "HOL-Library.AList"
begin

section \<open>Python values and library functions used by \<^verbatim>\<open>main.py\<close>\<close>

text \<open>
  Text is a list of characters, and a character is a code point below 256. On these
  the character classes are those of Python: \<^verbatim>\<open>str.isspace\<close> and \<^verbatim>\<open>\s\<close>
  hold for the ASCII whitespace, the separators \<^verbatim>\<open>0x1c\<close> to \<^verbatim>\<open>0x1f\<close>, the
  next-line character \<^verbatim>\<open>0x85\<close> and the no-break space \<^verbatim>\<open>0xa0\<close>;
  \<^verbatim>\<open>str.isdecimal\<close> for the ten digits; \<^verbatim>\<open>str.isdigit\<close> for these and for the
  superscripts \<^verbatim>\<open>0xb2\<close>, \<^verbatim>\<open>0xb3\<close> and \<^verbatim>\<open>0xb9\<close>; \<^verbatim>\<open>\w\<close> for the
  underscore and the alphanumeric characters, which beyond ASCII are the letters,
  superscripts and fractions of Latin-1.
\<close>

definition ord :: "char \<Rightarrow> nat" where
  "ord c = of_char c"

definition isspace :: "char \<Rightarrow> bool" where
  "isspace c = ((9 \<le> ord c \<and> ord c \<le> 13) \<or> (28 \<le> ord c \<and> ord c \<le> 32)
     \<or> ord c = 133 \<or> ord c = 160)"

definition isdecimal_char :: "char \<Rightarrow> bool" where
  "isdecimal_char c = (48 \<le> ord c \<and> ord c \<le> 57)"

definition isdigit_char :: "char \<Rightarrow> bool" where
  "isdigit_char c = (isdecimal_char c \<or> ord c = 178 \<or> ord c = 179 \<or> ord c = 185)"

definition islower_az :: "char \<Rightarrow> bool" where
  "islower_az c = (97 \<le> ord c \<and> ord c \<le> 122)"

definition isword :: "char \<Rightarrow> bool" where
  "isword c = (isdecimal_char c \<or> islower_az c \<or> (65 \<le> ord c \<and> ord c \<le> 90) \<or> c = CHR ''_''
     \<or> ord c = 170 \<or> ord c = 178 \<or> ord c = 179 \<or> ord c = 181 \<or> ord c = 185 \<or> ord c = 186
     \<or> (188 \<le> ord c \<and> ord c \<le> 190) \<or> (192 \<le> ord c \<and> ord c \<le> 214)
     \<or> (216 \<le> ord c \<and> ord c \<le> 246) \<or> (248 \<le> ord c \<and> ord c \<le> 255))"

text \<open>\<^verbatim>\<open>s.isdigit()\<close>: every character is a digit and there is at least one.\<close>

definition isdigit :: "string \<Rightarrow> bool" where
  "isdigit s = (s \<noteq> [] \<and> list_all isdigit_char s)"

text \<open>\<^verbatim>\<open>s.split()\<close>: the maximal runs of characters that are not whitespace.\<close>

fun split_ws :: "string \<Rightarrow> string \<Rightarrow> string list" where
  "split_ws cur [] = (if cur = [] then [] else [cur])"
| "split_ws cur (c # cs) =
     (if isspace c then (if cur = [] then split_ws [] cs else cur # split_ws [] cs)
      else split_ws (cur @ [c]) cs)"

definition py_split :: "string \<Rightarrow> string list" where
  "py_split s = split_ws [] s"

text \<open>
  The values that occur in the control dictionaries: \<^verbatim>\<open>get_ctls\<close> stores integers
  and strings, nothing else.
\<close>

datatype pyval = PyInt int | PyStr string

text \<open>
  \<^verbatim>\<open>int(s)\<close> in base 10: whitespace around the number is dropped (the separators
  \<^verbatim>\<open>0x1c\<close> to \<^verbatim>\<open>0x1f\<close> are not), a sign may precede it, and single underscores
  may stand between the decimal digits. \<open>None\<close> is \<^verbatim>\<open>ValueError\<close>.
  The bound that newer versions of Python put on the number of digits is not modelled.
\<close>

definition digit_val :: "char \<Rightarrow> nat" where
  "digit_val c = ord c - 48"

definition decimal :: "string \<Rightarrow> nat" where
  "decimal s = foldl (\<lambda>n c. 10 * n + digit_val c) 0 s"

fun no_double_underscore :: "string \<Rightarrow> bool" where
  "no_double_underscore (a # b # r) =
     (\<not> (a = CHR ''_'' \<and> b = CHR ''_'') \<and> no_double_underscore (b # r))"
| "no_double_underscore _ = True"

definition int_literal :: "string \<Rightarrow> bool" where
  "int_literal u = (u \<noteq> [] \<and> isdecimal_char (hd u) \<and> isdecimal_char (last u)
     \<and> list_all (\<lambda>c. isdecimal_char c \<or> c = CHR ''_'') u \<and> no_double_underscore u)"

definition int_space :: "char \<Rightarrow> bool" where
  "int_space c = ((9 \<le> ord c \<and> ord c \<le> 13) \<or> ord c = 32 \<or> ord c = 133 \<or> ord c = 160)"

definition strip :: "string \<Rightarrow> string" where
  "strip s = rev (dropWhile int_space (rev (dropWhile int_space s)))"

definition py_int :: "string \<Rightarrow> int option" where
  "py_int s =
     (let t = strip s;
          neg = (t \<noteq> [] \<and> hd t = CHR ''-'');
          u = (if t \<noteq> [] \<and> (hd t = CHR ''-'' \<or> hd t = CHR ''+'') then tl t else t)
      in if int_literal u
         then Some ((if neg then - 1 else 1) * int (decimal (filter (\<lambda>c. c \<noteq> CHR ''_'') u)))
         else None)"

text \<open>\<^verbatim>\<open>str(v)\<close>: the decimal numeral of an integer, a string as it is.\<close>

definition digit_char :: "nat \<Rightarrow> char" where
  "digit_char d = char_of (48 + d)"

fun str_nat :: "nat \<Rightarrow> string" where
  "str_nat n = (if n < 10 then [digit_char n] else str_nat (n div 10) @ [digit_char (n mod 10)])"

declare str_nat.simps [simp del]

definition str_int :: "int \<Rightarrow> string" where
  "str_int i = (if i < 0 then CHR ''-'' # str_nat (nat (- i)) else str_nat (nat i))"

fun py_str :: "pyval \<Rightarrow> string" where
  "py_str (PyInt i) = str_int i"
| "py_str (PyStr s) = s"

section \<open>Regular expressions\<close>

text \<open>
  The patterns of \<^verbatim>\<open>main.py\<close> are sequences of character classes, each taken once
  or under a quantifier, with capture groups around some of them and \<^verbatim>\<open>$\<close> at the
  end. A pattern is the list of its items, each with the number of the group it lies in
  (0 for none). The matcher is the backtracking matcher of \<^verbatim>\<open>re\<close>: a greedy
  quantifier tries the longest repetition first, a lazy one the shortest.
\<close>

datatype cls = Word | Space | Lower | Any | Lit char

datatype quant = One | Opt | Star | Plus | Lazy_Star

datatype item = Chr cls quant | End

type_synonym pattern = "(item \<times> nat) list"

fun in_cls :: "cls \<Rightarrow> char \<Rightarrow> bool" where
  "in_cls Word c = isword c"
| "in_cls Space c = isspace c"
| "in_cls Lower c = islower_az c"
| "in_cls Any c = (c \<noteq> CHR 0x0A)"
| "in_cls (Lit l) c = (c = l)"

text \<open>
  \<open>re_match p s ma\<close> matches the items \<open>p\<close> at the start of \<open>s\<close> and returns the text
  each item matched and the text left over. With \<open>ma\<close> (the matcher's
  \<^verbatim>\<open>must_advance\<close>) an empty match is refused.
\<close>

fun push :: "char \<Rightarrow> string list \<times> string \<Rightarrow> string list \<times> string" where
  "push x (r # rs, t) = ((x # r) # rs, t)"
| "push x ([], t) = ([[x]], t)"

fun skip :: "string list \<times> string \<Rightarrow> string list \<times> string" where
  "skip (rs, t) = ([] # rs, t)"

fun re_match :: "item list \<Rightarrow> string \<Rightarrow> bool \<Rightarrow> (string list \<times> string) option" where
  "re_match [] s ma = (if ma then None else Some ([], s))"
| "re_match (End # p) s ma =
     (if s = [] \<or> s = [CHR 0x0A] then map_option skip (re_match p s ma) else None)"
| "re_match (Chr c One # p) [] ma = None"
| "re_match (Chr c One # p) (x # xs) ma =
     (if in_cls c x then map_option (\<lambda>(rs, t). ([x] # rs, t)) (re_match p xs False) else None)"
| "re_match (Chr c Opt # p) [] ma = map_option skip (re_match p [] ma)"
| "re_match (Chr c Opt # p) (x # xs) ma =
     (if in_cls c x
      then (case re_match p xs False of
              Some (rs, t) \<Rightarrow> Some ([x] # rs, t)
            | None \<Rightarrow> map_option skip (re_match p (x # xs) ma))
      else map_option skip (re_match p (x # xs) ma))"
| "re_match (Chr c Star # p) [] ma = map_option skip (re_match p [] ma)"
| "re_match (Chr c Star # p) (x # xs) ma =
     (if in_cls c x
      then (case re_match (Chr c Star # p) xs False of
              Some r \<Rightarrow> Some (push x r)
            | None \<Rightarrow> map_option skip (re_match p (x # xs) ma))
      else map_option skip (re_match p (x # xs) ma))"
| "re_match (Chr c Plus # p) [] ma = None"
| "re_match (Chr c Plus # p) (x # xs) ma =
     (if in_cls c x then map_option (push x) (re_match (Chr c Star # p) xs False) else None)"
| "re_match (Chr c Lazy_Star # p) [] ma = map_option skip (re_match p [] ma)"
| "re_match (Chr c Lazy_Star # p) (x # xs) ma =
     (case re_match p (x # xs) ma of
        Some r \<Rightarrow> Some (skip r)
      | None \<Rightarrow>
          if in_cls c x then map_option (push x) (re_match (Chr c Lazy_Star # p) xs False)
          else None)"

text \<open>
  \<^verbatim>\<open>pattern.search(s)\<close>: the first position of \<open>s\<close> at which the pattern matches.
  The result is the text before the match, the text of each item, and the text after
  the match. Only the first position is tried under \<open>ma\<close>.
\<close>

fun re_search_from :: "pattern \<Rightarrow> string \<Rightarrow> string \<Rightarrow> bool
    \<Rightarrow> (string \<times> string list \<times> string) option" where
  "re_search_from p pre [] ma =
     (case re_match (map fst p) [] ma of Some (rs, t) \<Rightarrow> Some (pre, rs, t) | None \<Rightarrow> None)"
| "re_search_from p pre (x # xs) ma =
     (case re_match (map fst p) (x # xs) ma of
        Some (rs, t) \<Rightarrow> Some (pre, rs, t)
      | None \<Rightarrow> re_search_from p (pre @ [x]) xs False)"

definition re_search :: "pattern \<Rightarrow> string \<Rightarrow> (string \<times> string list \<times> string) option" where
  "re_search p s = re_search_from p [] s False"

text \<open>\<open>group p rs k\<close> is \<^verbatim>\<open>m[k]\<close>: the text matched by the items of group \<open>k\<close>.\<close>

definition group :: "pattern \<Rightarrow> string list \<Rightarrow> nat \<Rightarrow> string" where
  "group p rs k = concat (map snd (filter (\<lambda>(g, r). g = k) (zip (map snd p) rs)))"

definition ngroups :: "pattern \<Rightarrow> nat" where
  "ngroups p = fold max (map snd p) 0"

definition groups :: "pattern \<Rightarrow> string list \<Rightarrow> string list" where
  "groups p rs = map (group p rs) [1..<Suc (ngroups p)]"

lemma push_concat: "push x r = (rs, t) \<Longrightarrow> concat rs @ t = x # concat (fst r) @ snd r"
  by (cases r; cases "fst r") auto

lemma push_nonempty: "push x r = (rs, t) \<Longrightarrow> concat rs \<noteq> []"
  by (cases r; cases "fst r") auto

lemma re_match_concat: "re_match p s ma = Some (rs, t) \<Longrightarrow> s = concat rs @ t"
  by (induction p s ma arbitrary: rs t rule: re_match.induct)
    (auto split: if_splits option.splits dest!: push_concat)

lemma re_match_nonempty: "re_match p s True = Some (rs, t) \<Longrightarrow> concat rs \<noteq> []"
  by (induction p s "True" arbitrary: rs t rule: re_match.induct)
    (auto split: if_splits option.splits dest: push_nonempty, blast+)

lemma re_match_advance: "re_match p s True = Some (rs, t) \<Longrightarrow> length t < length s"
  using re_match_concat [of p s True rs t] re_match_nonempty [of p s rs t]
  by (cases "concat rs") auto

lemma re_search_from_concat:
  "re_search_from p pre s ma = Some (pre', rs, t) \<Longrightarrow> pre @ s = pre' @ concat rs @ t"
  by (induction p pre s ma rule: re_search_from.induct)
    (auto split: option.splits dest: re_match_concat)

lemma re_search_from_prefix:
  "re_search_from p pre s ma = Some (pre', rs, t) \<Longrightarrow> length pre \<le> length pre'"
  by (induction p pre s ma rule: re_search_from.induct)
    (auto split: option.splits)

lemma re_search_from_advance:
  assumes "re_search_from p pre s True = Some (pre', rs, t)"
  shows "length t < length s"
proof (cases s)
  case Nil
  with assms show ?thesis
    by (auto split: option.splits dest: re_match_advance)
next
  case (Cons x xs)
  show ?thesis
  proof (cases "re_match (map fst p) (x # xs) True")
    case None
    with assms Cons have *: "re_search_from p (pre @ [x]) xs False = Some (pre', rs, t)"
      by simp
    from re_search_from_concat [OF *]
    have "length ((pre @ [x]) @ xs) = length (pre' @ concat rs @ t)"
      by simp
    then have "length pre + 1 + length xs = length pre' + length (concat rs) + length t"
      by simp
    moreover from re_search_from_prefix [OF *] have "length pre + 1 \<le> length pre'"
      by simp
    ultimately show ?thesis
      using Cons by simp
  next
    case (Some r)
    with assms Cons show ?thesis
      by (cases r) (auto dest: re_match_advance)
  qed
qed

text \<open>
  \<^verbatim>\<open>pattern.split(s)\<close>: the text before each match and the groups of the match,
  then the text after the last match. After an empty match the next search must
  advance.
\<close>

function re_split_from :: "pattern \<Rightarrow> string \<Rightarrow> bool \<Rightarrow> string list" where
  "re_split_from p s ma =
     (case re_search_from p [] s ma of
        None \<Rightarrow> [s]
      | Some (pre, rs, t) \<Rightarrow> pre # groups p rs @ re_split_from p t (concat rs = []))"
  by pat_completeness auto
termination
proof (relation "measure (\<lambda>(p, s, ma). 2 * length s + (if ma then 0 else 1))", goal_cases)
  case 1
  show ?case by simp
next
  case (2 p s ma x2 pre y rs t)
  then have eq: "s = pre @ concat rs @ t"
    using re_search_from_concat [of p "[]" s ma pre rs t] by simp
  show ?case
  proof (cases ma)
    case True
    with 2 have "length t < length s"
      using re_search_from_advance [of p "[]" s pre rs t] by simp
    then show ?thesis by simp
  next
    case False
    with eq show ?thesis by (cases "concat rs = []") auto
  qed
qed

declare re_split_from.simps [simp del]

definition re_split :: "pattern \<Rightarrow> string \<Rightarrow> string list" where
  "re_split p s = re_split_from p s False"

section \<open>The interface class \<^verbatim>\<open>CameraControl\<close>\<close>

text \<open>
  \<^verbatim>\<open>RE_CTL = re.compile(r"(\w+).*?\(([a-z]+)\)\s*:\s(.*)$")\<close>
\<close>

definition RE_CTL :: pattern where
  "RE_CTL =
     [(Chr Word Plus, 1), (Chr Any Lazy_Star, 0), (Chr (Lit CHR ''('') One, 0),
      (Chr Lower Plus, 2), (Chr (Lit CHR '')'') One, 0), (Chr Space Star, 0),
      (Chr (Lit CHR '':'') One, 0), (Chr Space One, 0), (Chr Any Star, 3), (End, 0)]"

definition ATTRS :: "string list" where
  "ATTRS = [''min'', ''max'', ''step'', ''default'', ''value'', ''flags'']"

text \<open>\<^verbatim>\<open>re.compile(a + r"=(-?\w+)")\<close>, for a name \<open>a\<close> of letters.\<close>

definition re_attr :: "string \<Rightarrow> pattern" where
  "re_attr a =
     map (\<lambda>c. (Chr (Lit c) One, 0)) (a @ ''='') @ [(Chr (Lit CHR ''-'') Opt, 1), (Chr Word Plus, 1)]"

definition re_attrs :: "(string \<times> pattern) list" where
  "re_attrs = map (\<lambda>a. (a, re_attr a)) ATTRS"

text \<open>
  A control is a dictionary from attribute names to values, and the cache
  \<^verbatim>\<open>self.ctrls\<close> a dictionary from control names to controls. Python dictionaries keep
  the order of insertion, and \<^verbatim>\<open>update\<close> iterates over the cache, so both are
  association lists: \<^const>\<open>AList.update\<close> replaces the value of a key that is
  present where it stands and appends a new key at the end.

  The executable \<^verbatim>\<open>/usr/bin/v4l2-ctl\<close> is not part of the program. \<open>cmd\<close> gives,
  for the invocations made so far and the arguments of this one, the lines of its
  output, or \<open>None\<close> when \<^verbatim>\<open>sh\<close> raises (a non-zero exit code, for instance).
  \<open>calls\<close> records the arguments of every invocation and \<open>console\<close> every line
  printed.
\<close>

datatype exc = IndexError | KeyError | ValueError | RuntimeError | CommandError | OSError
  | JSONDecodeError

type_synonym ctl = "(string \<times> pyval) list"

record camera_control =
  device :: string
  cmd :: "string list list \<Rightarrow> string list \<Rightarrow> string list option"
  ctrls :: "(string \<times> ctl) list"
  calls :: "string list list"
  console :: "string list"

definition call_cmd :: "string list \<Rightarrow> camera_control \<Rightarrow> string list option \<times> camera_control" where
  "call_cmd args s = (cmd s (calls s) args, s\<lparr>calls := calls s @ [args]\<rparr>)"

text \<open>\<^verbatim>\<open>print(a, b, ...)\<close> writes its arguments with a blank between them.\<close>

fun join_blank :: "string list \<Rightarrow> string" where
  "join_blank [] = []"
| "join_blank [a] = a"
| "join_blank (a # b # r) = a @ '' '' @ join_blank (b # r)"

definition print :: "string list \<Rightarrow> camera_control \<Rightarrow> camera_control" where
  "print args s = s\<lparr>console := console s @ [join_blank args]\<rparr>"

text \<open>\<^verbatim>\<open>c[key]\<close> raises \<^verbatim>\<open>KeyError\<close> for a key that is absent.\<close>

definition getitem :: "('k \<times> 'v) list \<Rightarrow> 'k \<Rightarrow> exc + 'v" where
  "getitem d k = (case map_of d k of None \<Rightarrow> Inl KeyError | Some v \<Rightarrow> Inr v)"

subsection \<open>\<^verbatim>\<open>get_ctls\<close>\<close>

text \<open>The inner loop over \<^verbatim>\<open>self.re_attrs\<close>.\<close>

fun attrs_loop :: "(string \<times> pattern) list \<Rightarrow> string \<Rightarrow> ctl \<Rightarrow> ctl" where
  "attrs_loop [] rest ctl = ctl"
| "attrs_loop ((attr, re_a) # as) rest ctl =
     (case re_search re_a rest of
        None \<Rightarrow> attrs_loop as rest ctl
      | Some (pre, rs, t) \<Rightarrow>
          (let val = group re_a rs 1
           in attrs_loop as rest
                (AList.update attr (case py_int val of Some i \<Rightarrow> PyInt i | None \<Rightarrow> PyStr val) ctl)))"

text \<open>
  The loop over the lines. \<^verbatim>\<open>m[1]\<close>, \<^verbatim>\<open>m[2]\<close> and \<^verbatim>\<open>m[3]\<close> raise
  \<^verbatim>\<open>IndexError\<close> on a list that is too short.
\<close>

fun lines_loop :: "string list \<Rightarrow> camera_control \<Rightarrow> (exc + unit) \<times> camera_control" where
  "lines_loop [] s = (Inr (), s)"
| "lines_loop (line # ls) s =
     (let m = re_split RE_CTL line
      in if m = [] then lines_loop ls s
         else if length m \<le> 3 then (Inl IndexError, s)
         else
           (let name = m ! 1;
                ctl = [(''type'', PyStr (m ! 2))];
                rest = m ! 3;
                ctl = attrs_loop re_attrs rest ctl
            in lines_loop ls (s\<lparr>ctrls := AList.update name ctl (ctrls s)\<rparr>)))"

definition list_args :: "string \<Rightarrow> string list" where
  "list_args dev = (if dev \<noteq> [] then [''-d'', dev, ''-l''] else [''-l''])"

definition get_ctls :: "camera_control \<Rightarrow> (exc + unit) \<times> camera_control" where
  "get_ctls s =
     (let s = s\<lparr>ctrls := []\<rparr>;
          (ret, s) = call_cmd (list_args (device s)) s
      in case ret of
           None \<Rightarrow> (Inl CommandError, s)
         | Some lines \<Rightarrow> lines_loop lines s)"

text \<open>\<^verbatim>\<open>__init__\<close>\<close>

definition init :: "string \<Rightarrow> (string list list \<Rightarrow> string list \<Rightarrow> string list option)
    \<Rightarrow> (exc + unit) \<times> camera_control" where
  "init dev c = get_ctls \<lparr>device = dev, cmd = c, ctrls = [], calls = [], console = []\<rparr>"

subsection \<open>\<^verbatim>\<open>getValue\<close>\<close>

definition get_args :: "string \<Rightarrow> string \<Rightarrow> string list" where
  "get_args dev name =
     (if dev \<noteq> [] then [''-d'', dev, ''--get-ctrl'', name] else [''--get-ctrl'', name])"

text \<open>The body of the \<^verbatim>\<open>try\<close>.\<close>

definition getValue_try :: "string \<Rightarrow> camera_control \<Rightarrow> (exc + int) \<times> camera_control" where
  "getValue_try name s =
     (let (ret, s) = call_cmd (get_args (device s) name) s
      in case ret of
           None \<Rightarrow> (Inl CommandError, s)
         | Some out \<Rightarrow>
             (case those (map py_int (filter isdigit (py_split (concat out)))) of
                None \<Rightarrow> (Inl ValueError, s)
              | Some [] \<Rightarrow> (Inl IndexError, s)
              | Some (v # vs) \<Rightarrow>
                  (case getitem (ctrls s) name of
                     Inl e \<Rightarrow> (Inl e, s)
                   | Inr c \<Rightarrow>
                       (Inr v, s\<lparr>ctrls := AList.update name
                                  (AList.update ''value'' (PyInt v) c) (ctrls s)\<rparr>))))"

definition getValue :: "string \<Rightarrow> camera_control \<Rightarrow> (exc + int) \<times> camera_control" where
  "getValue name s =
     (case getValue_try name s of
        (Inr v, s') \<Rightarrow> (Inr v, s')
      | (Inl e, s') \<Rightarrow> (Inr 0, print [''Ups, could not read value.''] s'))"

subsection \<open>\<^verbatim>\<open>setValue\<close>\<close>

definition set_args :: "string \<Rightarrow> string \<Rightarrow> pyval \<Rightarrow> string list" where
  "set_args dev name val =
     (if dev \<noteq> [] then [''-d'', dev, ''--set-ctrl'', name @ ''='' @ py_str val]
      else [''--set-ctrl'', name @ ''='' @ py_str val])"

text \<open>\<^verbatim>\<open>c.get("flags", "") == "inactive"\<close>\<close>

definition inactive :: "ctl \<Rightarrow> bool" where
  "inactive c = ((case map_of c ''flags'' of None \<Rightarrow> PyStr [] | Some f \<Rightarrow> f) = PyStr ''inactive'')"

definition setValue :: "string \<Rightarrow> pyval \<Rightarrow> camera_control \<Rightarrow> (exc + bool) \<times> camera_control" where
  "setValue name val s =
     (case getitem (ctrls s) name of
        Inl e \<Rightarrow> (Inl e, s)
      | Inr c \<Rightarrow>
          if inactive c then (Inr True, s)
          else
            (let (ret, s) = call_cmd (set_args (device s) name val) s
             in case ret of
                  None \<Rightarrow> (Inr False, print [''Ups, could not set value for '', name, ''.''] s)
                | Some out \<Rightarrow>
                    (case getitem (ctrls s) name of
                       Inl e \<Rightarrow> (Inl e, s)
                     | Inr c \<Rightarrow>
                         (Inr True, s\<lparr>ctrls := AList.update name
                                      (AList.update ''value'' val c) (ctrls s)\<rparr>))))"

subsection \<open>\<^verbatim>\<open>update\<close>\<close>

text \<open>
  Each loop runs over the names of the cache; \<open>c\<close> is the control as it is when its
  turn comes. \<^verbatim>\<open>setValue\<close> adds and removes no name, so every name is found
  (Python would raise \<^verbatim>\<open>RuntimeError\<close> on a dictionary that changed its size).
\<close>

fun pass1 :: "bool \<Rightarrow> string list \<Rightarrow> camera_control \<Rightarrow> (exc + unit) \<times> camera_control" where
  "pass1 reset [] s = (Inr (), s)"
| "pass1 reset (name # ns) s =
     (case getitem (ctrls s) name of
        Inl e \<Rightarrow> (Inl RuntimeError, s)
      | Inr c \<Rightarrow>
          (case getitem c ''type'' of
             Inl e \<Rightarrow> (Inl e, s)
           | Inr ty \<Rightarrow>
               if ty = PyStr ''int'' then pass1 reset ns s
               else
                 (case (if reset then getitem c ''default'' else getitem c ''value'') of
                    Inl e \<Rightarrow> (Inl e, s)
                  | Inr val \<Rightarrow>
                      (case setValue name val s of
                         (Inl e, s') \<Rightarrow> (Inl e, s')
                       | (Inr b, s') \<Rightarrow> pass1 reset ns s'))))"

fun pass2 :: "bool \<Rightarrow> string list \<Rightarrow> camera_control \<Rightarrow> (exc + unit) \<times> camera_control" where
  "pass2 reset [] s = (Inr (), s)"
| "pass2 reset (name # ns) s =
     (case getitem (ctrls s) name of
        Inl e \<Rightarrow> (Inl RuntimeError, s)
      | Inr c \<Rightarrow>
          (case getitem c ''type'' of
             Inl e \<Rightarrow> (Inl e, s)
           | Inr ty \<Rightarrow>
               if ty = PyStr ''bool'' \<or> ty = PyStr ''menu'' then pass2 reset ns s
               else
                 (case (if reset then getitem c ''default'' else getitem c ''value'') of
                    Inl e \<Rightarrow> (Inl e, s)
                  | Inr val \<Rightarrow>
                      (case setValue name val s of
                         (Inl e, s') \<Rightarrow> (Inl e, s')
                       | (Inr b, s') \<Rightarrow> pass2 reset ns s'))))"

definition update :: "bool \<Rightarrow> camera_control \<Rightarrow> (exc + unit) \<times> camera_control" where
  "update reset s =
     (case pass1 reset (map fst (ctrls s)) s of
        (Inl e, s') \<Rightarrow> (Inl e, s')
      | (Inr u, s') \<Rightarrow> pass2 reset (map fst (ctrls s')) s')"

section \<open>A small camera for the examples\<close>

definition demo_ctrls :: "(string \<times> ctl) list" where
  "demo_ctrls =
     [(''gain'', [(''type'', PyStr ''int''), (''default'', PyInt 0), (''value'', PyInt 3)]),
      (''auto'', [(''type'', PyStr ''bool''), (''default'', PyInt 1), (''value'', PyInt 0)]),
      (''exposure'', [(''type'', PyStr ''int''), (''default'', PyInt 5), (''value'', PyInt 7),
                      (''flags'', PyStr ''inactive'')])]"

definition demo_cam :: "string \<Rightarrow> (string list list \<Rightarrow> string list \<Rightarrow> string list option)
    \<Rightarrow> camera_control" where
  "demo_cam dev c = \<lparr>device = dev, cmd = c, ctrls = demo_ctrls, calls = [], console = []\<rparr>"

text \<open>An executable that fails on every invocation, and one that always prints \<open>out\<close>.\<close>

definition failing :: "string list list \<Rightarrow> string list \<Rightarrow> string list option" where
  "failing h a = None"

definition printing :: "string list \<Rightarrow> string list list \<Rightarrow> string list \<Rightarrow> string list option" where
  "printing out h a = Some out"

section \<open>\<^verbatim>\<open>setValue\<close> and \<^verbatim>\<open>getValue\<close>\<close>

text \<open>
  C10. For a control whose cached \<^verbatim>\<open>flags\<close> attribute is \<^verbatim>\<open>"inactive"\<close>,
  \<^verbatim>\<open>setValue\<close> returns \<^verbatim>\<open>True\<close> and leaves the whole state as it was: the
  executable is not invoked, nothing is printed, and the cache (with the control's
  \<^verbatim>\<open>value\<close>) is not touched.
\<close>

theorem setValue_inactive:
  assumes "map_of (ctrls s) name = Some c" and "map_of c ''flags'' = Some (PyStr ''inactive'')"
  shows "setValue name val s = (Inr True, s)"
  using assms by (simp add: setValue_def getitem_def inactive_def)

theorem setValue_inactive_witness:
  "map_of (ctrls (demo_cam [] failing)) ''exposure''
     = Some [(''type'', PyStr ''int''), (''default'', PyInt 5), (''value'', PyInt 7),
             (''flags'', PyStr ''inactive'')]
   \<and> map_of [(''type'', PyStr ''int''), (''default'', PyInt 5), (''value'', PyInt 7),
             (''flags'', PyStr ''inactive'')] ''flags'' = Some (PyStr ''inactive'')
   \<and> setValue ''exposure'' (PyInt 9) (demo_cam [] failing) = (Inr True, demo_cam [] failing)"
  using setValue_inactive [of "demo_cam [] failing" "''exposure''"
      "[(''type'', PyStr ''int''), (''default'', PyInt 5), (''value'', PyInt 7),
        (''flags'', PyStr ''inactive'')]" "PyInt 9"]
  by (simp add: demo_cam_def demo_ctrls_def)

text \<open>
  C4. For a known control that is not flagged inactive (so that the executable is
  invoked), if the set-control command fails, \<^verbatim>\<open>setValue\<close> returns \<^verbatim>\<open>False\<close> and
  raises nothing; it prints one message, and the cache is unchanged: the state differs
  from the one before only by the recorded invocation and the printed line.
\<close>

theorem setValue_command_fails:
  assumes "map_of (ctrls s) name = Some c" and "\<not> inactive c"
    and "cmd s (calls s) (set_args (device s) name val) = None"
  shows "setValue name val s =
     (Inr False, s\<lparr>calls := calls s @ [set_args (device s) name val],
                    console := console s @ [''Ups, could not set value for  '' @ name @ '' .'']\<rparr>)"
  using assms by (simp add: setValue_def getitem_def call_cmd_def print_def)

theorem setValue_command_fails_witness:
  "map_of (ctrls (demo_cam [] failing)) ''gain''
     = Some [(''type'', PyStr ''int''), (''default'', PyInt 0), (''value'', PyInt 3)]
   \<and> \<not> inactive [(''type'', PyStr ''int''), (''default'', PyInt 0), (''value'', PyInt 3)]
   \<and> cmd (demo_cam [] failing) (calls (demo_cam [] failing))
         (set_args (device (demo_cam [] failing)) ''gain'' (PyInt 9)) = None
   \<and> setValue ''gain'' (PyInt 9) (demo_cam [] failing) =
       (Inr False, \<lparr>device = [], cmd = failing, ctrls = demo_ctrls,
                     calls = [[''--set-ctrl'', ''gain=9'']],
                     console = [''Ups, could not set value for  gain .'']\<rparr>)"
proof -
  have args: "set_args [] ''gain'' (PyInt 9) = [''--set-ctrl'', ''gain=9'']"
    by code_simp
  show ?thesis
    using setValue_command_fails [of "demo_cam [] failing" "''gain''"
        "[(''type'', PyStr ''int''), (''default'', PyInt 0), (''value'', PyInt 3)]" "PyInt 9"]
    by (simp add: demo_cam_def demo_ctrls_def failing_def inactive_def args)
qed

lemma no_double_underscore_digits: "list_all isdecimal_char s \<Longrightarrow> no_double_underscore s"
  by (induction s rule: no_double_underscore.induct) (auto simp: isdecimal_char_def ord_def)

lemma isdigit_not_int_space: "isdigit_char c \<Longrightarrow> \<not> int_space c"
  by (auto simp: isdigit_char_def isdecimal_char_def int_space_def)

lemma isdigit_no_sign:
  "isdigit_char c \<Longrightarrow> c \<noteq> CHR ''-'' \<and> c \<noteq> CHR ''+'' \<and> c \<noteq> CHR ''_''"
  by (auto simp: isdigit_char_def isdecimal_char_def ord_def)

lemma strip_digits:
  assumes "isdigit s"
  shows "strip s = s"
proof -
  from assms have 1: "dropWhile int_space s = s"
    by (cases s) (auto simp: isdigit_def isdigit_not_int_space)
  from assms have "s \<noteq> []" "isdigit_char (last s)"
    by (auto simp: isdigit_def list_all_iff)
  then have "dropWhile int_space (rev s) = rev s"
    by (cases s rule: rev_cases) (auto simp: isdigit_not_int_space)
  with 1 show ?thesis by (simp add: strip_def)
qed

text \<open>
  On a text that \<^verbatim>\<open>isdigit\<close> accepts, \<^verbatim>\<open>int\<close> succeeds when every character
  is a decimal digit and raises \<^verbatim>\<open>ValueError\<close> otherwise (on a superscript).
\<close>

lemma py_int_decimal:
  assumes "isdigit s" and "list_all isdecimal_char s"
  shows "py_int s = Some (int (decimal s))"
proof -
  from assms have ne: "s \<noteq> []" and dig: "list_all isdigit_char s"
    by (auto simp: isdigit_def)
  from ne assms(2) have hd: "isdecimal_char (hd s)" and lst: "isdecimal_char (last s)"
    by (auto simp: list_all_iff)
  from ne dig have "isdigit_char (hd s)"
    by (auto simp: list_all_iff)
  then have nosign: "hd s \<noteq> CHR ''-''" "hd s \<noteq> CHR ''+''"
    using isdigit_no_sign by auto
  from assms(2) have lit: "int_literal s"
    using ne hd lst by (auto simp: int_literal_def no_double_underscore_digits list_all_iff)
  from dig have "filter (\<lambda>c. c \<noteq> CHR ''_'') s = s"
    using isdigit_no_sign by (induction s) auto
  with lit nosign ne show ?thesis
    by (simp add: py_int_def strip_digits [OF assms(1)] Let_def)
qed

lemma py_int_not_decimal:
  assumes "isdigit s" and "\<not> list_all isdecimal_char s"
  shows "py_int s = None"
proof -
  from assms(1) have ne: "s \<noteq> []" and dig: "list_all isdigit_char s"
    by (auto simp: isdigit_def)
  from ne dig have "isdigit_char (hd s)"
    by (auto simp: list_all_iff)
  then have nosign: "hd s \<noteq> CHR ''-''" "hd s \<noteq> CHR ''+''"
    using isdigit_no_sign by auto
  from assms(2) obtain c where c: "c \<in> set s" "\<not> isdecimal_char c"
    by (auto simp: list_all_iff)
  with dig have "c \<noteq> CHR ''_''"
    using isdigit_no_sign by (auto simp: list_all_iff)
  with c have "\<not> int_literal s"
    by (auto simp: int_literal_def list_all_iff)
  with nosign ne show ?thesis
    by (simp add: py_int_def strip_digits [OF assms(1)] Let_def)
qed

lemma those_py_int_decimal:
  "\<forall>t\<in>set ts. isdigit t \<and> list_all isdecimal_char t
    \<Longrightarrow> those (map py_int ts) = Some (map (\<lambda>t. int (decimal t)) ts)"
  by (induction ts) (auto simp: py_int_decimal)

lemma those_None: "None \<in> set xs \<Longrightarrow> those xs = None"
  by (induction xs) (auto split: option.splits)

text \<open>
  C5. Reading a value fails when the get-control command fails, when its output has no
  token that \<^verbatim>\<open>isdigit\<close> accepts, or when it has such a token that \<^verbatim>\<open>int\<close>
  refuses. Then \<^verbatim>\<open>getValue\<close> returns 0 and raises nothing; it prints one message,
  and the cache is unchanged: the state differs from the one before only by the
  recorded invocation and the printed line. This holds for every name, known or not.
\<close>

theorem getValue_failure:
  assumes "cmd s (calls s) (get_args (device s) name) = None
    \<or> (\<exists>out. cmd s (calls s) (get_args (device s) name) = Some out
          \<and> (filter isdigit (py_split (concat out)) = []
               \<or> (\<exists>t\<in>set (filter isdigit (py_split (concat out))). \<not> list_all isdecimal_char t)))"
  shows "getValue name s =
     (Inr 0, s\<lparr>calls := calls s @ [get_args (device s) name],
                console := console s @ [''Ups, could not read value.'']\<rparr>)"
proof -
  let ?s' = "s\<lparr>calls := calls s @ [get_args (device s) name]\<rparr>"
  have "\<exists>e. getValue_try name s = (Inl e, ?s')"
    using assms
  proof (elim disjE exE conjE bexE)
    assume "cmd s (calls s) (get_args (device s) name) = None"
    then show ?thesis
      by (simp add: getValue_try_def call_cmd_def)
  next
    fix out
    assume "cmd s (calls s) (get_args (device s) name) = Some out"
      and "filter isdigit (py_split (concat out)) = []"
    then show ?thesis
      by (simp add: getValue_try_def call_cmd_def)
  next
    fix out t
    assume out: "cmd s (calls s) (get_args (device s) name) = Some out"
      and t: "t \<in> set (filter isdigit (py_split (concat out)))" "\<not> list_all isdecimal_char t"
    from t have "py_int t = None"
      by (intro py_int_not_decimal) auto
    with t(1) have "None \<in> set (map py_int (filter isdigit (py_split (concat out))))"
      by (metis image_eqI set_map)
    from those_None [OF this] out show ?thesis
      by (simp add: getValue_try_def call_cmd_def)
  qed
  then show ?thesis
    by (auto simp: getValue_def print_def)
qed

text \<open>
  The output \<^verbatim>\<open>gain:\<close>, a superscript two and \<^verbatim>\<open>5\<close>: the superscript is a token
  that \<^verbatim>\<open>isdigit\<close> accepts and \<^verbatim>\<open>int\<close> refuses.
\<close>

definition superscript_output :: "string list" where
  "superscript_output = [''gain: '' @ [CHR 0xB2] @ '' 5'']"

theorem getValue_failure_witness:
  "cmd (demo_cam [] (printing superscript_output)) (calls (demo_cam [] (printing superscript_output)))
        (get_args (device (demo_cam [] (printing superscript_output))) ''gain'')
     = Some superscript_output
   \<and> filter isdigit (py_split (concat superscript_output)) = [[CHR 0xB2], ''5'']
   \<and> \<not> list_all isdecimal_char [CHR 0xB2]
   \<and> getValue ''gain'' (demo_cam [] (printing superscript_output)) =
       (Inr 0, \<lparr>device = [], cmd = printing superscript_output, ctrls = demo_ctrls,
                 calls = [[''--get-ctrl'', ''gain'']],
                 console = [''Ups, could not read value.'']\<rparr>)"
proof -
  let ?D = "demo_cam [] (printing superscript_output)"
  have 1: "cmd ?D (calls ?D) (get_args (device ?D) ''gain'') = Some superscript_output"
    by (simp add: demo_cam_def printing_def)
  have 2: "filter isdigit (py_split (concat superscript_output)) = [[CHR 0xB2], ''5'']"
    by (simp add: superscript_output_def py_split_def isspace_def isdigit_def isdigit_char_def
        isdecimal_char_def ord_def)
  have 3: "\<not> list_all isdecimal_char [CHR 0xB2]"
    by (simp add: isdecimal_char_def ord_def)
  have h: "cmd ?D (calls ?D) (get_args (device ?D) ''gain'') = None
    \<or> (\<exists>out. cmd ?D (calls ?D) (get_args (device ?D) ''gain'') = Some out
          \<and> (filter isdigit (py_split (concat out)) = []
               \<or> (\<exists>t\<in>set (filter isdigit (py_split (concat out))). \<not> list_all isdecimal_char t)))"
  proof -
    have "\<exists>t\<in>set (filter isdigit (py_split (concat superscript_output))).
        \<not> list_all isdecimal_char t"
      unfolding 2 using 3 by simp
    with 1 show ?thesis by blast
  qed
  from 1 2 3 getValue_failure [OF h] show ?thesis
    by (simp add: demo_cam_def get_args_def)
qed

text \<open>
  C6. \<^verbatim>\<open>getValue\<close> succeeds when the control is known, the get-control command
  returns, its output has a token that \<^verbatim>\<open>isdigit\<close> accepts, and \<^verbatim>\<open>int\<close>
  converts every such token: each is of decimal digits (and of at most 4300 of them,
  the bound of newer versions of Python). The integer reported is the first of these
  tokens, read in base ten. \<^verbatim>\<open>getValue\<close> returns it and stores it as the
  \<^verbatim>\<open>value\<close> of the control; nothing is printed.
\<close>

theorem getValue_success:
  assumes "map_of (ctrls s) name = Some c"
    and "cmd s (calls s) (get_args (device s) name) = Some out"
    and "filter isdigit (py_split (concat out)) = tok # toks"
    and "\<forall>t\<in>set (tok # toks). list_all isdecimal_char t \<and> length t \<le> 4300"
  shows "getValue name s =
     (Inr (int (decimal tok)),
      s\<lparr>calls := calls s @ [get_args (device s) name],
        ctrls := AList.update name (AList.update ''value'' (PyInt (int (decimal tok))) c) (ctrls s)\<rparr>)"
proof -
  have "\<forall>t\<in>set (filter isdigit (py_split (concat out))). isdigit t"
    by simp
  then have "\<forall>t\<in>set (tok # toks). isdigit t"
    unfolding assms(3) .
  with assms(4) have "those (map py_int (tok # toks))
      = Some (map (\<lambda>t. int (decimal t)) (tok # toks))"
    by (intro those_py_int_decimal) auto
  then have "those (map py_int (filter isdigit (py_split (concat out))))
      = Some (int (decimal tok) # map (\<lambda>t. int (decimal t)) toks)"
    unfolding assms(3) by simp
  with assms(1,2) show ?thesis
    by (simp add: getValue_def getValue_try_def call_cmd_def getitem_def)
qed

text \<open>The output \<^verbatim>\<open>gain:\<close>, a no-break space and \<^verbatim>\<open>12\<close>: the text is split there.\<close>

definition nbsp_output :: "string list" where
  "nbsp_output = [''gain:'' @ [CHR 0xA0] @ ''12'']"

theorem getValue_success_witness:
  "map_of (ctrls (demo_cam [] (printing nbsp_output))) ''gain''
     = Some [(''type'', PyStr ''int''), (''default'', PyInt 0), (''value'', PyInt 3)]
   \<and> cmd (demo_cam [] (printing nbsp_output)) (calls (demo_cam [] (printing nbsp_output)))
        (get_args (device (demo_cam [] (printing nbsp_output))) ''gain'') = Some nbsp_output
   \<and> filter isdigit (py_split (concat nbsp_output)) = [''12'']
   \<and> list_all isdecimal_char ''12'' \<and> length ''12'' \<le> (4300 :: nat)
   \<and> getValue ''gain'' (demo_cam [] (printing nbsp_output)) =
       (Inr 12,
        \<lparr>device = [], cmd = printing nbsp_output,
          ctrls = [(''gain'', [(''type'', PyStr ''int''), (''default'', PyInt 0), (''value'', PyInt 12)]),
                   (''auto'', [(''type'', PyStr ''bool''), (''default'', PyInt 1), (''value'', PyInt 0)]),
                   (''exposure'', [(''type'', PyStr ''int''), (''default'', PyInt 5), (''value'', PyInt 7),
                                   (''flags'', PyStr ''inactive'')])],
          calls = [[''--get-ctrl'', ''gain'']], console = []\<rparr>)"
proof -
  let ?D = "demo_cam [] (printing nbsp_output)"
  have 1: "map_of (ctrls ?D) ''gain''
     = Some [(''type'', PyStr ''int''), (''default'', PyInt 0), (''value'', PyInt 3)]"
    by (simp add: demo_cam_def demo_ctrls_def)
  have 2: "cmd ?D (calls ?D) (get_args (device ?D) ''gain'') = Some nbsp_output"
    by (simp add: demo_cam_def printing_def)
  have 3: "filter isdigit (py_split (concat nbsp_output)) = [''12'']"
    by (simp add: nbsp_output_def py_split_def isspace_def isdigit_def isdigit_char_def
        isdecimal_char_def ord_def)
  have 4: "\<forall>t\<in>set [''12'']. list_all isdecimal_char t \<and> length t \<le> 4300"
    by (simp add: isdecimal_char_def ord_def)
  have 5: "int (decimal ''12'') = 12"
    by (simp add: decimal_def digit_val_def ord_def)
  from 1 2 3 4 getValue_success [OF 1 2 3 4] show ?thesis
    unfolding 5 by (simp add: demo_cam_def demo_ctrls_def get_args_def)
qed

section \<open>\<^verbatim>\<open>update\<close>: the two passes\<close>

text \<open>
  \<open>attr_of s n k\<close> is the attribute \<open>k\<close> of the control \<open>n\<close> in the cache, and
  \<open>flagged_inactive s n\<close> the test \<^verbatim>\<open>setValue\<close> makes on it.
\<close>

definition attr_of :: "camera_control \<Rightarrow> string \<Rightarrow> string \<Rightarrow> pyval option" where
  "attr_of s n k = (case map_of (ctrls s) n of None \<Rightarrow> None | Some c \<Rightarrow> map_of c k)"

definition flagged_inactive :: "camera_control \<Rightarrow> string \<Rightarrow> bool" where
  "flagged_inactive s n = (case map_of (ctrls s) n of None \<Rightarrow> False | Some c \<Rightarrow> inactive c)"

text \<open>
  The two loops of \<^verbatim>\<open>update\<close> differ in the types they skip only: \<open>pass sk\<close> is
  the loop with the test \<open>sk\<close> on the type.
\<close>

fun pass :: "(pyval \<Rightarrow> bool) \<Rightarrow> bool \<Rightarrow> string list \<Rightarrow> camera_control
    \<Rightarrow> (exc + unit) \<times> camera_control" where
  "pass sk reset [] s = (Inr (), s)"
| "pass sk reset (name # ns) s =
     (case getitem (ctrls s) name of
        Inl e \<Rightarrow> (Inl RuntimeError, s)
      | Inr c \<Rightarrow>
          (case getitem c ''type'' of
             Inl e \<Rightarrow> (Inl e, s)
           | Inr ty \<Rightarrow>
               if sk ty then pass sk reset ns s
               else
                 (case (if reset then getitem c ''default'' else getitem c ''value'') of
                    Inl e \<Rightarrow> (Inl e, s)
                  | Inr val \<Rightarrow>
                      (case setValue name val s of
                         (Inl e, s') \<Rightarrow> (Inl e, s')
                       | (Inr b, s') \<Rightarrow> pass sk reset ns s'))))"

text \<open>A camera with one control of a type that is neither int, bool nor menu.\<close>

definition link_cam :: camera_control where
  "link_cam = \<lparr>device = [], cmd = printing [],
     ctrls = [(''link_frequency'', [(''type'', PyStr ''intmenu''), (''default'', PyInt 0), (''value'', PyInt 1)])],
     calls = [], console = []\<rparr>"

lemma setValue_cases:
  assumes "setValue name val s = (r, s')"
  obtains (unknown) "map_of (ctrls s) name = None" "r = Inl KeyError" "s' = s"
  | (inact) c where "map_of (ctrls s) name = Some c" "inactive c" "r = Inr True" "s' = s"
  | (failed) c where "map_of (ctrls s) name = Some c" "\<not> inactive c" "r = Inr False"
      "s' = s\<lparr>calls := calls s @ [set_args (device s) name val],
               console := console s @ [''Ups, could not set value for  '' @ name @ '' .'']\<rparr>"
  | (stored) c where "map_of (ctrls s) name = Some c" "\<not> inactive c" "r = Inr True"
      "s' = s\<lparr>calls := calls s @ [set_args (device s) name val],
               ctrls := AList.update name (AList.update ''value'' val c) (ctrls s)\<rparr>"
  using assms
  by (auto simp: setValue_def getitem_def call_cmd_def print_def
      split: option.splits if_splits)

lemma attr_of_update:
  "attr_of (s\<lparr>ctrls := AList.update name (AList.update k v c) (ctrls s)\<rparr>) n k' =
     (if n = name then (if k' = k then Some v else map_of c k') else attr_of s n k')"
  by (simp add: attr_of_def update_conv')

lemma setValue_frame:
  assumes "setValue name val s = (r, s')"
  shows "device s' = device s" and "cmd s' = cmd s"
    and "map fst (ctrls s') = map fst (ctrls s)"
    and "k \<noteq> ''value'' \<Longrightarrow> attr_of s' n k = attr_of s n k"
    and "n \<noteq> name \<Longrightarrow> attr_of s' n k = attr_of s n k"
    and "attr_of s name ''value'' = Some val \<Longrightarrow> ctrls s' = ctrls s"
proof -
  show "device s' = device s" "cmd s' = cmd s"
    using assms by (cases rule: setValue_cases; simp)+
  show "map fst (ctrls s') = map fst (ctrls s)"
    using assms
  proof (cases rule: setValue_cases)
    case (stored c)
    then have "name \<in> set (map fst (ctrls s))"
      by (metis map_of_eq_None_iff option.distinct(1) set_map)
    with stored show ?thesis by (simp add: update_keys)
  qed simp_all
  show "attr_of s' n k = attr_of s n k" if "k \<noteq> ''value''"
    using assms that
    by (cases rule: setValue_cases) (auto simp: attr_of_def update_conv')
  show "attr_of s' n k = attr_of s n k" if "n \<noteq> name"
    using assms that
    by (cases rule: setValue_cases) (auto simp: attr_of_def update_conv')
  show "ctrls s' = ctrls s" if "attr_of s name ''value'' = Some val"
    using assms that
    by (cases rule: setValue_cases) (auto simp: attr_of_def update_triv)
qed

lemma setValue_calls:
  assumes "setValue name val s = (r, s')"
  shows "calls s' = calls s @
     (case map_of (ctrls s) name of None \<Rightarrow> []
      | Some c \<Rightarrow> if inactive c then [] else [set_args (device s) name val])"
  using assms by (cases rule: setValue_cases) simp_all

lemma setValue_known:
  assumes "map_of (ctrls s) name = Some c"
  shows "\<exists>b s'. setValue name val s = (Inr b, s')"
  using assms
  by (auto simp: setValue_def getitem_def call_cmd_def update_conv' split: option.splits)

lemma pass1_pass: "pass1 reset ns s = pass (\<lambda>ty. ty = PyStr ''int'') reset ns s"
  by (induction ns arbitrary: s) (auto split: sum.splits prod.splits)

lemma pass2_pass:
  "pass2 reset ns s = pass (\<lambda>ty. ty = PyStr ''bool'' \<or> ty = PyStr ''menu'') reset ns s"
  by (induction ns arbitrary: s) (auto split: sum.splits prod.splits)

lemma pass_Cons_cases:
  assumes "pass sk reset (name # ns) s = (r, s')"
  obtains (abort) e where "r = Inl e" "s' = s"
  | (skipped) c ty where "map_of (ctrls s) name = Some c" "map_of c ''type'' = Some ty" "sk ty"
      "pass sk reset ns s = (r, s')"
  | (set) c ty val b s1 where "map_of (ctrls s) name = Some c" "map_of c ''type'' = Some ty"
      "\<not> sk ty" "map_of c (if reset then ''default'' else ''value'') = Some val"
      "setValue name val s = (Inr b, s1)" "pass sk reset ns s1 = (r, s')"
proof (cases "map_of (ctrls s) name")
  case None
  with assms show ?thesis by (auto simp: getitem_def intro: abort)
next
  case c: (Some c)
  show ?thesis
  proof (cases "map_of c ''type''")
    case None
    with assms c show ?thesis by (auto simp: getitem_def intro: abort)
  next
    case ty: (Some ty)
    show ?thesis
    proof (cases "sk ty")
      case True
      with assms c ty skipped show ?thesis by (simp add: getitem_def)
    next
      case False
      show ?thesis
      proof (cases "map_of c (if reset then ''default'' else ''value'')")
        case None
        with assms c ty False show ?thesis
          by (auto simp: getitem_def split: if_splits intro: abort)
      next
        case (Some val)
        from setValue_known [OF c] obtain b s1 where sv: "setValue name val s = (Inr b, s1)"
          by blast
        with assms c ty False Some have "pass sk reset ns s1 = (r, s')"
          by (simp add: getitem_def split: if_splits)
        with c ty False Some sv set show ?thesis by blast
      qed
    qed
  qed
qed

lemma pass_trace:
  assumes "pass sk reset ns s = (r, s')"
  shows "\<exists>ops. calls s' = calls s @ map (\<lambda>(n, v). set_args (device s) n v) ops
     \<and> (\<forall>(n, v) \<in> set ops. \<exists>ty. attr_of s n ''type'' = Some ty \<and> \<not> sk ty)
     \<and> device s' = device s \<and> (\<forall>n. attr_of s' n ''type'' = attr_of s n ''type'')"
  using assms
proof (induction ns arbitrary: s)
  case Nil
  then show ?case by (intro exI [of _ "[]"]) simp
next
  case (Cons name ns)
  from Cons.prems show ?case
  proof (cases rule: pass_Cons_cases)
    case (abort e)
    then show ?thesis by (intro exI [of _ "[]"]) simp
  next
    case (skipped c ty)
    from Cons.IH [OF skipped(4)] show ?thesis .
  next
    case (set c ty val b s1)
    from Cons.IH [OF set(6)] obtain ops where ops:
      "calls s' = calls s1 @ map (\<lambda>(n, v). set_args (device s1) n v) ops"
      "\<forall>(n, v) \<in> set ops. \<exists>ty. attr_of s1 n ''type'' = Some ty \<and> \<not> sk ty"
      "device s' = device s1" "\<forall>n. attr_of s' n ''type'' = attr_of s1 n ''type''"
      by blast
    note fr = setValue_frame [OF set(5)]
    have ty1: "attr_of s1 n ''type'' = attr_of s n ''type''" for n
      by (rule fr(4)) simp
    let ?op = "if inactive c then [] else [(name, val)]"
    have "calls s1 = calls s @ map (\<lambda>(n, v). set_args (device s) n v) ?op"
      using setValue_calls [OF set(5)] set(1) by simp
    with ops(1) fr(1)
    have 1: "calls s' = calls s @ map (\<lambda>(n, v). set_args (device s) n v) (?op @ ops)"
      by simp
    have "attr_of s name ''type'' = Some ty"
      using set(1,2) by (simp add: attr_of_def)
    with ops(2) set(3) ty1
    have 2: "\<forall>(n, v) \<in> set (?op @ ops). \<exists>ty. attr_of s n ''type'' = Some ty \<and> \<not> sk ty"
      by auto
    from 1 2 ops(3,4) fr(1) ty1 show ?thesis
      by (intro exI [of _ "?op @ ops"]) simp
  qed
qed

lemma flagged_inactive_attr:
  "flagged_inactive s n \<longleftrightarrow> attr_of s n ''flags'' = Some (PyStr ''inactive'')"
  by (auto simp: flagged_inactive_def attr_of_def inactive_def split: option.splits)

lemma pass_exact:
  assumes "\<forall>n\<in>set ns. attr_of s n ''type'' \<noteq> None
             \<and> attr_of s n (if reset then ''default'' else ''value'') \<noteq> None"
  shows "\<exists>ops s'. pass sk reset ns s = (Inr (), s')
     \<and> calls s' = calls s @ map (\<lambda>(n, v). set_args (device s) n v) ops
     \<and> (\<forall>(n, v)\<in>set ops. attr_of s n (if reset then ''default'' else ''value'') = Some v)
     \<and> map fst ops = filter (\<lambda>n. (\<exists>ty. attr_of s n ''type'' = Some ty \<and> \<not> sk ty)
                                    \<and> \<not> flagged_inactive s n) ns
     \<and> device s' = device s \<and> map fst (ctrls s') = map fst (ctrls s)
     \<and> (\<forall>n k. k \<noteq> ''value'' \<longrightarrow> attr_of s' n k = attr_of s n k)
     \<and> (\<not> reset \<longrightarrow> ctrls s' = ctrls s)"
  using assms
proof (induction ns arbitrary: s)
  case Nil
  show ?case by (intro exI [of _ "[]"] exI [of _ s]) simp
next
  case (Cons name ns)
  let ?key = "if reset then ''default'' else ''value''"
  from Cons.prems obtain ty val where ty: "attr_of s name ''type'' = Some ty"
    and val: "attr_of s name ?key = Some val"
    by auto
  then obtain c where c: "map_of (ctrls s) name = Some c" "map_of c ''type'' = Some ty"
    "map_of c ?key = Some val"
    by (auto simp: attr_of_def split: option.splits)
  show ?case
  proof (cases "sk ty")
    case True
    from Cons.prems have "\<forall>n\<in>set ns. attr_of s n ''type'' \<noteq> None \<and> attr_of s n ?key \<noteq> None"
      by simp
    from Cons.IH [OF this] obtain ops s' where
      "pass sk reset ns s = (Inr (), s')"
      "calls s' = calls s @ map (\<lambda>(n, v). set_args (device s) n v) ops"
      "\<forall>(n, v)\<in>set ops. attr_of s n ?key = Some v"
      "map fst ops = filter (\<lambda>n. (\<exists>ty. attr_of s n ''type'' = Some ty \<and> \<not> sk ty)
                                    \<and> \<not> flagged_inactive s n) ns"
      "device s' = device s" "map fst (ctrls s') = map fst (ctrls s)"
      "\<forall>n k. k \<noteq> ''value'' \<longrightarrow> attr_of s' n k = attr_of s n k"
      "\<not> reset \<longrightarrow> ctrls s' = ctrls s"
      by blast
    with True c ty show ?thesis
      by (intro exI [of _ ops] exI [of _ s']) (simp add: getitem_def)
  next
    case False
    from setValue_known [OF c(1)] obtain b s1 where sv: "setValue name val s = (Inr b, s1)"
      by blast
    note fr = setValue_frame [OF sv]
    have same: "ctrls s1 = ctrls s" if "\<not> reset"
      using that val fr(6) by simp
    have key1: "attr_of s1 n ?key = attr_of s n ?key" for n
    proof (cases reset)
      case True
      then show ?thesis using fr(4) [of ?key n] by simp
    next
      case False
      with same show ?thesis by (simp add: attr_of_def)
    qed
    have ty1: "attr_of s1 n ''type'' = attr_of s n ''type''" for n
      by (rule fr(4)) simp
    have fl1: "flagged_inactive s1 n = flagged_inactive s n" for n
      unfolding flagged_inactive_attr by (subst fr(4)) simp_all
    from Cons.prems key1 ty1
    have "\<forall>n\<in>set ns. attr_of s1 n ''type'' \<noteq> None \<and> attr_of s1 n ?key \<noteq> None"
      by simp
    from Cons.IH [OF this] obtain ops s' where ih:
      "pass sk reset ns s1 = (Inr (), s')"
      "calls s' = calls s1 @ map (\<lambda>(n, v). set_args (device s1) n v) ops"
      "\<forall>(n, v)\<in>set ops. attr_of s1 n ?key = Some v"
      "map fst ops = filter (\<lambda>n. (\<exists>ty. attr_of s1 n ''type'' = Some ty \<and> \<not> sk ty)
                                    \<and> \<not> flagged_inactive s1 n) ns"
      "device s' = device s1" "map fst (ctrls s') = map fst (ctrls s1)"
      "\<forall>n k. k \<noteq> ''value'' \<longrightarrow> attr_of s' n k = attr_of s1 n k"
      "\<not> reset \<longrightarrow> ctrls s' = ctrls s1"
      by blast
    let ?op = "if inactive c then [] else [(name, val)]"
    have p: "pass sk reset (name # ns) s = (Inr (), s')"
      using c False sv ih(1) by (simp add: getitem_def split: if_splits)
    have "calls s1 = calls s @ map (\<lambda>(n, v). set_args (device s) n v) ?op"
      using setValue_calls [OF sv] c(1) by simp
    with ih(2) fr(1)
    have 1: "calls s' = calls s @ map (\<lambda>(n, v). set_args (device s) n v) (?op @ ops)"
      by simp
    have 2: "\<forall>(n, v)\<in>set (?op @ ops). attr_of s n ?key = Some v"
      using ih(3) val unfolding key1 by auto
    have fl: "flagged_inactive s name = inactive c"
      using c(1) by (simp add: flagged_inactive_def)
    have 3: "map fst (?op @ ops) = filter (\<lambda>n. (\<exists>ty. attr_of s n ''type'' = Some ty \<and> \<not> sk ty)
                                    \<and> \<not> flagged_inactive s n) (name # ns)"
      using ih(4) ty False fl unfolding ty1 fl1 by simp
    have 4: "\<forall>n k. k \<noteq> ''value'' \<longrightarrow> attr_of s' n k = attr_of s n k"
      using ih(7) fr(4) by simp
    have 5: "\<not> reset \<longrightarrow> ctrls s' = ctrls s"
      using ih(8) same by simp
    from p 1 2 3 4 5 ih(5,6) fr(1,3) show ?thesis
      by (intro exI [of _ "?op @ ops"] exI [of _ s']) simp
  qed
qed

lemma count_list_filter_distinct:
  "distinct xs \<Longrightarrow> count_list (filter P xs) n = (if n \<in> set xs \<and> P n then 1 else 0)"
  by (induction xs) auto

text \<open>
  C1. The set-control commands that one call of \<^verbatim>\<open>update\<close> issues (with
  \<open>reset\<close> true or false, and also when it stops on an exception) are the commands
  of a sequence \<open>ops\<close> of controls of the cache with the values set, and in this
  sequence every operation on a bool or menu control stands before every operation on
  an int control.
\<close>

theorem update_order:
  "\<exists>ops. calls (snd (update reset s)) = calls s @ map (\<lambda>(n, v). set_args (device s) n v) ops
     \<and> (\<forall>(n, v) \<in> set ops. n \<in> fst ` set (ctrls s))
     \<and> (\<forall>i j. i < length ops \<and> j < length ops
           \<and> attr_of s (fst (ops ! i)) ''type'' = Some (PyStr ''int'')
           \<and> attr_of s (fst (ops ! j)) ''type'' \<in> {Some (PyStr ''bool''), Some (PyStr ''menu'')}
           \<longrightarrow> j < i)"
proof -
  let ?sk1 = "\<lambda>ty. ty = PyStr ''int''"
  let ?sk2 = "\<lambda>ty. ty = PyStr ''bool'' \<or> ty = PyStr ''menu''"
  have known: "n \<in> fst ` set (ctrls s)" if "attr_of s n ''type'' = Some ty" for n ty
    using that by (auto simp: attr_of_def split: option.splits dest: map_of_SomeD intro: rev_image_eqI)
  obtain r1 s1 where p1: "pass ?sk1 reset (map fst (ctrls s)) s = (r1, s1)"
    by (cases "pass ?sk1 reset (map fst (ctrls s)) s") auto
  from pass_trace [OF p1] obtain ops1 where ops1:
    "calls s1 = calls s @ map (\<lambda>(n, v). set_args (device s) n v) ops1"
    "\<forall>(n, v) \<in> set ops1. \<exists>ty. attr_of s n ''type'' = Some ty \<and> \<not> ?sk1 ty"
    "device s1 = device s" "\<forall>n. attr_of s1 n ''type'' = attr_of s n ''type''"
    by blast
  obtain r2 s2 where p2: "pass ?sk2 reset (map fst (ctrls s1)) s1 = (r2, s2)"
    by (cases "pass ?sk2 reset (map fst (ctrls s1)) s1") auto
  from pass_trace [OF p2] ops1(3,4) obtain ops2 where ops2:
    "calls s2 = calls s1 @ map (\<lambda>(n, v). set_args (device s) n v) ops2"
    "\<forall>(n, v) \<in> set ops2. \<exists>ty. attr_of s n ''type'' = Some ty \<and> \<not> ?sk2 ty"
    by auto
  define ops where "ops = (case r1 of Inl e \<Rightarrow> ops1 | Inr u \<Rightarrow> ops1 @ ops2)"
  have calls: "calls (snd (update reset s)) = calls s @ map (\<lambda>(n, v). set_args (device s) n v) ops"
    using p1 p2 ops1(1) ops2(1)
    by (cases r1) (simp_all add: update_def pass1_pass pass2_pass ops_def)
  have first: "attr_of s (fst (ops ! i)) ''type'' \<noteq> Some (PyStr ''int'')"
    if "i < length ops1" for i
  proof -
    from that have "ops ! i = ops1 ! i"
      by (cases r1) (simp_all add: ops_def nth_append)
    moreover from that have "ops1 ! i \<in> set ops1" by simp
    ultimately obtain n v where "ops ! i = (n, v)" "(n, v) \<in> set ops1"
      by (metis surj_pair)
    with ops1(2) show ?thesis by fastforce
  qed
  have second: "attr_of s (fst (ops ! j)) ''type'' \<notin> {Some (PyStr ''bool''), Some (PyStr ''menu'')}"
    if "length ops1 \<le> j" "j < length ops" for j
  proof -
    from that have r1: "ops = ops1 @ ops2"
      by (cases r1) (simp_all add: ops_def)
    with that have "ops ! j = ops2 ! (j - length ops1)" "j - length ops1 < length ops2"
      by (auto simp: nth_append)
    then obtain n v where "ops ! j = (n, v)" "(n, v) \<in> set ops2"
      by (metis nth_mem surj_pair)
    with ops2(2) show ?thesis by fastforce
  qed
  have names: "\<forall>(n, v) \<in> set ops. n \<in> fst ` set (ctrls s)"
    using ops1(2) ops2(2) known by (cases r1) (fastforce simp: ops_def)+
  have order: "j < i"
    if "i < length ops" "j < length ops"
      "attr_of s (fst (ops ! i)) ''type'' = Some (PyStr ''int'')"
      "attr_of s (fst (ops ! j)) ''type'' \<in> {Some (PyStr ''bool''), Some (PyStr ''menu'')}"
    for i j
  proof -
    from first that(3) have "length ops1 \<le> i" by (meson not_le)
    moreover from second that(2,4) have "j < length ops1" by (meson not_le)
    ultimately show ?thesis by simp
  qed
  from calls names order show ?thesis by blast
qed

theorem update_order_witness:
  "calls (snd (update False (demo_cam [] (printing [])))) =
     [[''--set-ctrl'', ''auto=0''], [''--set-ctrl'', ''gain=3'']]
   \<and> attr_of (demo_cam [] (printing [])) ''auto'' ''type'' = Some (PyStr ''bool'')
   \<and> attr_of (demo_cam [] (printing [])) ''gain'' ''type'' = Some (PyStr ''int'')
   \<and> (\<exists>ops. [[''--set-ctrl'', ''auto=0''], [''--set-ctrl'', ''gain=3'']] = map (\<lambda>(n, v). set_args [] n v) ops
     \<and> (\<forall>(n, v) \<in> set ops. n \<in> {''gain'', ''auto'', ''exposure''})
     \<and> (\<forall>i j. i < length ops \<and> j < length ops
           \<and> attr_of (demo_cam [] (printing [])) (fst (ops ! i)) ''type'' = Some (PyStr ''int'')
           \<and> attr_of (demo_cam [] (printing [])) (fst (ops ! j)) ''type'' \<in> {Some (PyStr ''bool''), Some (PyStr ''menu'')}
           \<longrightarrow> j < i))"
proof -
  have c: "calls (snd (update False (demo_cam [] (printing [])))) =
     [[''--set-ctrl'', ''auto=0''], [''--set-ctrl'', ''gain=3'']]"
    by code_simp
  have a: "attr_of (demo_cam [] (printing [])) ''auto'' ''type'' = Some (PyStr ''bool'')"
    "attr_of (demo_cam [] (printing [])) ''gain'' ''type'' = Some (PyStr ''int'')"
    by code_simp+
  have d: "calls (demo_cam [] (printing [])) = []" "device (demo_cam [] (printing [])) = []"
    "fst ` set (ctrls (demo_cam [] (printing []))) = {''gain'', ''auto'', ''exposure''}"
    by (simp_all add: demo_cam_def demo_ctrls_def)
  from update_order [of False "demo_cam [] (printing [])"] c a show ?thesis
    unfolding d by simp
qed

text \<open>
  C7. Let the names of the cache be distinct, and let every control have a type and the
  attribute that \<^verbatim>\<open>update\<close> reads (\<^verbatim>\<open>default\<close> on reset, \<^verbatim>\<open>value\<close>
  otherwise). Then \<^verbatim>\<open>update\<close> returns normally. The commands it issues are those of
  a sequence \<open>ops\<close>: first the controls whose type is not int, then the controls
  whose type is neither bool nor menu, each time in the order of the cache and without
  the controls flagged inactive, each with the attribute read. A control of type int,
  bool or menu occurs in \<open>ops\<close> exactly once, unless it is flagged inactive: then it
  does not occur.
\<close>

theorem update_once:
  assumes "distinct (map fst (ctrls s))"
    and "\<forall>n \<in> fst ` set (ctrls s). attr_of s n ''type'' \<noteq> None
            \<and> attr_of s n (if reset then ''default'' else ''value'') \<noteq> None"
  shows "\<exists>ops s'. update reset s = (Inr (), s')
     \<and> calls s' = calls s @ map (\<lambda>(n, v). set_args (device s) n v) ops
     \<and> (\<forall>(n, v)\<in>set ops. attr_of s n (if reset then ''default'' else ''value'') = Some v)
     \<and> map fst ops =
         [n \<leftarrow> map fst (ctrls s). attr_of s n ''type'' \<noteq> Some (PyStr ''int'')
                                    \<and> \<not> flagged_inactive s n]
         @ [n \<leftarrow> map fst (ctrls s). attr_of s n ''type'' \<noteq> Some (PyStr ''bool'')
                                    \<and> attr_of s n ''type'' \<noteq> Some (PyStr ''menu'')
                                    \<and> \<not> flagged_inactive s n]
     \<and> (\<forall>n \<in> fst ` set (ctrls s).
           attr_of s n ''type'' \<in> {Some (PyStr ''int''), Some (PyStr ''bool''), Some (PyStr ''menu'')}
           \<longrightarrow> count_list (map fst ops) n = (if flagged_inactive s n then 0 else 1))"
proof -
  let ?key = "if reset then ''default'' else ''value''"
  let ?sk1 = "\<lambda>ty. ty = PyStr ''int''"
  let ?sk2 = "\<lambda>ty. ty = PyStr ''bool'' \<or> ty = PyStr ''menu''"
  let ?ns = "map fst (ctrls s)"
  from assms(2) have a: "\<forall>n\<in>set ?ns. attr_of s n ''type'' \<noteq> None \<and> attr_of s n ?key \<noteq> None"
    by simp
  from pass_exact [OF a, of ?sk1] obtain ops1 s1 where 1:
    "pass ?sk1 reset ?ns s = (Inr (), s1)"
    "calls s1 = calls s @ map (\<lambda>(n, v). set_args (device s) n v) ops1"
    "\<forall>(n, v)\<in>set ops1. attr_of s n ?key = Some v"
    "map fst ops1 = filter (\<lambda>n. (\<exists>ty. attr_of s n ''type'' = Some ty \<and> \<not> ?sk1 ty)
                                    \<and> \<not> flagged_inactive s n) ?ns"
    "device s1 = device s" "map fst (ctrls s1) = ?ns"
    "\<forall>n k. k \<noteq> ''value'' \<longrightarrow> attr_of s1 n k = attr_of s n k"
    "\<not> reset \<longrightarrow> ctrls s1 = ctrls s"
    by blast
  have key1: "attr_of s1 n ?key = attr_of s n ?key" for n
    using 1(7,8) by (cases reset) (simp_all add: attr_of_def)
  have ty1: "attr_of s1 n ''type'' = attr_of s n ''type''" for n
    using 1(7) by simp
  have fl1: "flagged_inactive s1 n = flagged_inactive s n" for n
    unfolding flagged_inactive_attr using 1(7) by simp
  from a key1 ty1
  have "\<forall>n\<in>set ?ns. attr_of s1 n ''type'' \<noteq> None \<and> attr_of s1 n ?key \<noteq> None"
    by simp
  from pass_exact [OF this, of ?sk2] obtain ops2 s2 where 2:
    "pass ?sk2 reset ?ns s1 = (Inr (), s2)"
    "calls s2 = calls s1 @ map (\<lambda>(n, v). set_args (device s1) n v) ops2"
    "\<forall>(n, v)\<in>set ops2. attr_of s1 n ?key = Some v"
    "map fst ops2 = filter (\<lambda>n. (\<exists>ty. attr_of s1 n ''type'' = Some ty \<and> \<not> ?sk2 ty)
                                    \<and> \<not> flagged_inactive s1 n) ?ns"
    by blast
  let ?ops = "ops1 @ ops2"
  have u: "update reset s = (Inr (), s2)"
    using 1(1,6) 2(1) by (simp add: update_def pass1_pass pass2_pass)
  have c: "calls s2 = calls s @ map (\<lambda>(n, v). set_args (device s) n v) ?ops"
    using 1(2,5) 2(2) by simp
  have v: "\<forall>(n, v)\<in>set ?ops. attr_of s n ?key = Some v"
    using 1(3) 2(3) unfolding key1 by auto
  have f1: "map fst ops1 = [n \<leftarrow> ?ns. attr_of s n ''type'' \<noteq> Some (PyStr ''int'')
                                    \<and> \<not> flagged_inactive s n]"
    unfolding 1(4) using a by (intro filter_cong) auto
  have f2: "map fst ops2 = [n \<leftarrow> ?ns. attr_of s n ''type'' \<noteq> Some (PyStr ''bool'')
                                    \<and> attr_of s n ''type'' \<noteq> Some (PyStr ''menu'')
                                    \<and> \<not> flagged_inactive s n]"
    unfolding 2(4) ty1 fl1 using a by (intro filter_cong) auto
  have cnt: "count_list (map fst ?ops) n = (if flagged_inactive s n then 0 else 1)"
    if "n \<in> fst ` set (ctrls s)"
      "attr_of s n ''type'' \<in> {Some (PyStr ''int''), Some (PyStr ''bool''), Some (PyStr ''menu'')}"
    for n
    using that assms(1) by (auto simp: f1 f2 count_list_filter_distinct)
  from u c v f1 f2 cnt show ?thesis
    by (intro exI [of _ ?ops] exI [of _ s2]) simp
qed

theorem update_once_witness:
  "distinct (map fst (ctrls (demo_cam [] (printing []))))
   \<and> fst (update True (demo_cam [] (printing []))) = Inr ()
   \<and> calls (snd (update True (demo_cam [] (printing [])))) =
       [[''--set-ctrl'', ''auto=1''], [''--set-ctrl'', ''gain=0'']]
   \<and> (\<exists>ops. [[''--set-ctrl'', ''auto=1''], [''--set-ctrl'', ''gain=0'']] = map (\<lambda>(n, v). set_args [] n v) ops
        \<and> count_list (map fst ops) ''gain'' = 1
        \<and> count_list (map fst ops) ''auto'' = 1
        \<and> count_list (map fst ops) ''exposure'' = 0)"
proof -
  let ?D = "demo_cam [] (printing [])"
  have d: "distinct (map fst (ctrls ?D))"
    by (simp add: demo_cam_def demo_ctrls_def)
  have names: "fst ` set (ctrls ?D) = {''gain'', ''auto'', ''exposure''}"
    by (simp add: demo_cam_def demo_ctrls_def)
  have a: "\<forall>n \<in> fst ` set (ctrls ?D). attr_of ?D n ''type'' \<noteq> None
            \<and> attr_of ?D n (if True then ''default'' else ''value'') \<noteq> None"
    unfolding names by (simp add: attr_of_def demo_cam_def demo_ctrls_def)
  have t: "attr_of ?D ''gain'' ''type'' = Some (PyStr ''int'')"
    "attr_of ?D ''auto'' ''type'' = Some (PyStr ''bool'')"
    "attr_of ?D ''exposure'' ''type'' = Some (PyStr ''int'')"
    "\<not> flagged_inactive ?D ''gain''" "\<not> flagged_inactive ?D ''auto''"
    "flagged_inactive ?D ''exposure''"
    by (simp_all add: attr_of_def flagged_inactive_def inactive_def demo_cam_def demo_ctrls_def)
  have c: "calls (snd (update True ?D)) = [[''--set-ctrl'', ''auto=1''], [''--set-ctrl'', ''gain=0'']]"
    by code_simp
  have e: "calls ?D = []" "device ?D = []"
    by (simp_all add: demo_cam_def)
  from update_once [OF d a] obtain ops s' where o:
    "update True ?D = (Inr (), s')"
    "calls s' = calls ?D @ map (\<lambda>(n, v). set_args (device ?D) n v) ops"
    "\<forall>n \<in> fst ` set (ctrls ?D).
           attr_of ?D n ''type'' \<in> {Some (PyStr ''int''), Some (PyStr ''bool''), Some (PyStr ''menu'')}
           \<longrightarrow> count_list (map fst ops) n = (if flagged_inactive ?D n then 0 else 1)"
    by blast
  from o(3) t have "count_list (map fst ops) ''gain'' = 1" "count_list (map fst ops) ''auto'' = 1"
    "count_list (map fst ops) ''exposure'' = 0"
    unfolding names by simp_all
  moreover from o(1,2) c e
  have "[[''--set-ctrl'', ''auto=1''], [''--set-ctrl'', ''gain=0'']] = map (\<lambda>(n, v). set_args [] n v) ops"
    by simp
  ultimately show ?thesis using d c o(1) by auto
qed

text \<open>
  A control of any other type is not skipped by either loop: for the one control of
  \<open>link_cam\<close>, of type \<^verbatim>\<open>intmenu\<close>, \<^verbatim>\<open>update\<close> issues the set-control command
  twice.
\<close>

theorem update_twice_counterexample:
  "map fst (ctrls link_cam) = [''link_frequency'']
   \<and> fst (update False link_cam) = Inr ()
   \<and> calls (snd (update False link_cam)) =
       [[''--set-ctrl'', ''link_frequency=1''], [''--set-ctrl'', ''link_frequency=1'']]"
  by code_simp

section \<open>The device argument\<close>

lemma lines_loop_frame:
  "calls (snd (lines_loop ls s)) = calls s \<and> device (snd (lines_loop ls s)) = device s"
  by (induction ls arbitrary: s) (simp_all add: Let_def)

text \<open>
  C9. \<^verbatim>\<open>get_ctls\<close> and \<^verbatim>\<open>getValue\<close> invoke the executable once, and
  \<^verbatim>\<open>setValue\<close> once or not at all. With a device path that is not empty the
  arguments of the invocation start with \<^verbatim>\<open>-d\<close> and the path; with the empty path
  (the default of the command-line flag) they are the subcommand and its operand only.
  No method changes the device path, and \<^verbatim>\<open>__init__\<close> stores the path it is given.
\<close>

theorem device_argument:
  "calls (snd (get_ctls s)) = calls s @ [(if device s = [] then [] else [''-d'', device s]) @ [''-l'']]
   \<and> calls (snd (getValue name s))
       = calls s @ [(if device s = [] then [] else [''-d'', device s]) @ [''--get-ctrl'', name]]
   \<and> (calls (snd (setValue name val s)) = calls s
       \<or> calls (snd (setValue name val s))
           = calls s @ [(if device s = [] then [] else [''-d'', device s])
                        @ [''--set-ctrl'', name @ ''='' @ py_str val]])
   \<and> device (snd (get_ctls s)) = device s
   \<and> device (snd (getValue name s)) = device s
   \<and> device (snd (setValue name val s)) = device s
   \<and> device (snd (init dev c)) = dev
   \<and> calls (snd (init dev c)) = [(if dev = [] then [] else [''-d'', dev]) @ [''-l'']]"
proof -
  have g: "calls (snd (get_ctls s)) = calls s @ [(if device s = [] then [] else [''-d'', device s]) @ [''-l'']]"
    "device (snd (get_ctls s)) = device s" for s
    by (simp_all add: get_ctls_def call_cmd_def list_args_def lines_loop_frame Let_def split: option.splits)
  have v: "calls (snd (getValue name s))
       = calls s @ [(if device s = [] then [] else [''-d'', device s]) @ [''--get-ctrl'', name]]"
    "device (snd (getValue name s)) = device s"
    by (simp_all add: getValue_def getValue_try_def call_cmd_def get_args_def print_def getitem_def
        split: option.splits list.splits sum.splits)
  obtain r s' where sv: "setValue name val s = (r, s')"
    by (cases "setValue name val s") auto
  have w: "calls (snd (setValue name val s)) = calls s
       \<or> calls (snd (setValue name val s))
           = calls s @ [(if device s = [] then [] else [''-d'', device s])
                        @ [''--set-ctrl'', name @ ''='' @ py_str val]]"
    "device (snd (setValue name val s)) = device s"
    using setValue_calls [OF sv] setValue_frame(1) [OF sv] sv
    by (auto simp: set_args_def split: option.splits if_splits)
  from g v w show ?thesis
    by (simp add: init_def)
qed

theorem device_argument_witness:
  "calls (snd (getValue ''gain'' (demo_cam ''/dev/video2'' (printing [''gain: 12'']))))
     = [[''-d'', ''/dev/video2'', ''--get-ctrl'', ''gain'']]
   \<and> calls (snd (setValue ''gain'' (PyInt 5) (demo_cam ''/dev/video2'' (printing []))))
     = [[''-d'', ''/dev/video2'', ''--set-ctrl'', ''gain=5'']]
   \<and> calls (snd (init ''/dev/video2'' (printing []))) = [[''-d'', ''/dev/video2'', ''-l'']]
   \<and> calls (snd (getValue ''gain'' (demo_cam [] (printing [''gain: 12''])))) = [[''--get-ctrl'', ''gain'']]
   \<and> calls (snd (init [] (printing []))) = [[''-l'']]"
proof -
  have s: "calls (snd (setValue ''gain'' (PyInt 5) (demo_cam ''/dev/video2'' (printing []))))
     = [[''-d'', ''/dev/video2'', ''--set-ctrl'', ''gain=5'']]"
    by code_simp
  from s device_argument [of "demo_cam ''/dev/video2'' (printing [''gain: 12''])" "''gain''" "PyInt 5"
      "''/dev/video2''" "printing []"]
    device_argument [of "demo_cam [] (printing [''gain: 12''])" "''gain''" "PyInt 5" "[]" "printing []"]
  show ?thesis
    by (simp add: demo_cam_def)
qed

section \<open>\<^verbatim>\<open>get_ctls\<close> on a line that is a control\<close>

text \<open>
  What a pattern matches, said without the matcher: \<open>matches p rs t\<close> holds when the
  texts \<open>rs\<close>, one for each item of \<open>p\<close>, belong to their items, with \<open>t\<close> for the
  text that follows. \<^verbatim>\<open>$\<close> wants the end of the text, or a newline as its last
  character, after it.
\<close>

fun item_ok :: "item \<Rightarrow> string \<Rightarrow> string \<Rightarrow> bool" where
  "item_ok End r u = (r = [] \<and> (u = [] \<or> u = [CHR 0x0A]))"
| "item_ok (Chr c One) r u = (length r = 1 \<and> list_all (in_cls c) r)"
| "item_ok (Chr c Opt) r u = (length r \<le> 1 \<and> list_all (in_cls c) r)"
| "item_ok (Chr c Star) r u = list_all (in_cls c) r"
| "item_ok (Chr c Lazy_Star) r u = list_all (in_cls c) r"
| "item_ok (Chr c Plus) r u = (r \<noteq> [] \<and> list_all (in_cls c) r)"

fun matches :: "item list \<Rightarrow> string list \<Rightarrow> string \<Rightarrow> bool" where
  "matches [] [] t = True"
| "matches (i # p) (r # rs) t = (item_ok i r (concat rs @ t) \<and> matches p rs t)"
| "matches _ _ t = False"

text \<open>
  A line is the line of a control when it has a name of word characters, a type of
  lower-case letters in parentheses, a colon after optional whitespace, one whitespace
  character and a remainder, all on one line. A value is a word, with or without a minus
  sign before it, and \<open>occurs_as a v rest\<close> says that the text \<open>a=v\<close> occurs in
  \<open>rest\<close>. \<open>stored_value v\<close> is what \<^verbatim>\<open>get_ctls\<close> stores for the text \<open>v\<close>: the
  integer when \<^verbatim>\<open>int(v)\<close> succeeds, the text otherwise.
\<close>

definition ctl_line :: "string \<Rightarrow> string \<Rightarrow> string \<Rightarrow> string \<Rightarrow> bool" where
  "ctl_line line name ty rest =
     (\<exists>pre mid sps sp eol.
        line = pre @ name @ mid @ ''('' @ ty @ '')'' @ sps @ '':'' @ sp # rest @ eol
        \<and> name \<noteq> [] \<and> list_all isword name \<and> list_all (\<lambda>c. c \<noteq> CHR 0x0A) mid
        \<and> ty \<noteq> [] \<and> list_all islower_az ty \<and> list_all isspace sps \<and> isspace sp
        \<and> list_all (\<lambda>c. c \<noteq> CHR 0x0A) rest \<and> (eol = [] \<or> eol = [CHR 0x0A]))"

definition stored_value :: "string \<Rightarrow> pyval" where
  "stored_value v = (case py_int v of Some i \<Rightarrow> PyInt i | None \<Rightarrow> PyStr v)"

definition value_text :: "string \<Rightarrow> bool" where
  "value_text v =
     (let w = (if v \<noteq> [] \<and> hd v = CHR ''-'' then tl v else v)
      in w \<noteq> [] \<and> list_all isword w)"

definition occurs_as :: "string \<Rightarrow> string \<Rightarrow> string \<Rightarrow> bool" where
  "occurs_as a v rest = (\<exists>pre post. rest = pre @ a @ ''='' @ v @ post \<and> value_text v)"

lemma matches_length: "matches p rs t \<Longrightarrow> length rs = length p"
  by (induction p rs t rule: matches.induct) auto

lemma push_matches_star:
  assumes "push x r = (rs, t)" and "matches (Chr c q # p) (fst r) (snd r)" and "in_cls c x"
    and "q = Star \<or> q = Lazy_Star"
  shows "matches (Chr c q # p) rs t" and "matches (Chr c Plus # p) rs t"
  using assms by (cases r; cases "fst r"; auto)+

lemma re_match_sound: "re_match p s ma = Some (rs, t) \<Longrightarrow> matches p rs t"
proof (induction p s ma arbitrary: rs t rule: re_match.induct)
  case (2 p s ma)
  from 2(2) obtain rs' where r: "re_match p s ma = Some (rs', t)" "rs = [] # rs'"
    and s: "s = [] \<or> s = [CHR 0x0A]"
    by (auto split: if_splits)
  from re_match_concat [OF r(1)] s have "concat rs' @ t = [] \<or> concat rs' @ t = [CHR 0x0A]"
    by auto
  with 2(1) [OF s r(1)] r(2) show ?case by simp
next
  case (8 c p x xs ma)
  then show ?case
    by (auto split: if_splits option.splits dest: push_matches_star(1) [where q = Star])
next
  case (10 c p x xs ma)
  then show ?case
    by (auto split: if_splits option.splits dest: push_matches_star(2) [where q = Star])
next
  case (12 c p x xs ma)
  then show ?case
    by (auto split: if_splits option.splits dest: push_matches_star(1) [where q = Lazy_Star])
qed (auto split: if_splits option.splits)

lemma star_complete:
  assumes IH: "\<And>rs t ma. matches p rs t \<Longrightarrow> (ma \<longrightarrow> concat rs \<noteq> [])
      \<Longrightarrow> re_match p (concat rs @ t) ma \<noteq> None"
    and "list_all (in_cls c) r" and "matches p rs t" and "ma \<longrightarrow> r @ concat rs \<noteq> []"
  shows "re_match (Chr c Star # p) (r @ concat rs @ t) ma \<noteq> None"
  using assms(2,4)
proof (induction r arbitrary: ma)
  case Nil
  define s where "s = concat rs @ t"
  from Nil have "re_match p s ma \<noteq> None"
    unfolding s_def using IH [OF assms(3)] by simp
  then show ?case
    unfolding append_Nil s_def [symmetric] by (cases s) (auto split: option.splits)
next
  case (Cons x r)
  then have "re_match (Chr c Star # p) (r @ concat rs @ t) False \<noteq> None"
    by simp
  with Cons.prems show ?case by auto
qed

lemma lazy_complete:
  assumes IH: "\<And>rs t ma. matches p rs t \<Longrightarrow> (ma \<longrightarrow> concat rs \<noteq> [])
      \<Longrightarrow> re_match p (concat rs @ t) ma \<noteq> None"
    and "list_all (in_cls c) r" and "matches p rs t" and "ma \<longrightarrow> r @ concat rs \<noteq> []"
  shows "re_match (Chr c Lazy_Star # p) (r @ concat rs @ t) ma \<noteq> None"
  using assms(2,4)
proof (induction r arbitrary: ma)
  case Nil
  define s where "s = concat rs @ t"
  from Nil have "re_match p s ma \<noteq> None"
    unfolding s_def using IH [OF assms(3)] by simp
  then show ?case
    unfolding append_Nil s_def [symmetric] by (cases s) (auto split: option.splits)
next
  case (Cons x r)
  then have "re_match (Chr c Lazy_Star # p) (r @ concat rs @ t) False \<noteq> None"
    by simp
  with Cons.prems show ?case by (auto split: option.splits)
qed

lemma re_match_complete:
  "matches p rs t \<Longrightarrow> (ma \<longrightarrow> concat rs \<noteq> []) \<Longrightarrow> re_match p (concat rs @ t) ma \<noteq> None"
proof (induction p arbitrary: rs t ma)
  case Nil
  then show ?case by (cases rs) auto
next
  case (Cons i p)
  from Cons.prems(1) obtain r rs' where rs: "rs = r # rs'"
    and ok: "item_ok i r (concat rs' @ t)" and m: "matches p rs' t"
    by (cases rs) auto
  note IH = Cons.IH
  show ?case
  proof (cases i)
    case End
    with ok Cons.prems(2) rs IH [OF m, of ma] show ?thesis by auto
  next
    case (Chr c q)
    show ?thesis
    proof (cases q)
      case One
      with ok Chr obtain x where "r = [x]" "in_cls c x"
        by (cases r) auto
      with One Chr rs IH [OF m, of False] show ?thesis by simp
    next
      case Opt
      from ok Chr Opt consider "r = []" | x where "r = [x]" "in_cls c x"
        by (cases r) auto
      then show ?thesis
      proof cases
        case 1
        define s where "s = concat rs' @ t"
        from 1 Cons.prems(2) rs have "re_match p s ma \<noteq> None"
          unfolding s_def using IH [OF m, of ma] by simp
        then have "re_match (Chr c Opt # p) s ma \<noteq> None"
          by (cases s) (auto split: option.splits)
        moreover have "concat rs @ t = s"
          using 1 rs by (simp add: s_def)
        ultimately show ?thesis
          unfolding Chr Opt by simp
      next
        case 2
        with Opt Chr rs IH [OF m, of False] show ?thesis by auto
      qed
    next
      case Star
      with ok Chr rs Cons.prems(2) show ?thesis
        using star_complete [OF IH _ m, of c r ma] by simp
    next
      case Plus
      with ok Chr obtain x r' where r: "r = x # r'" "in_cls c x" "list_all (in_cls c) r'"
        by (cases r) auto
      with Plus Chr rs show ?thesis
        using star_complete [OF IH r(3) m, of False] by simp
    next
      case Lazy_Star
      with ok Chr rs Cons.prems(2) show ?thesis
        using lazy_complete [OF IH _ m, of c r ma] by simp
    qed
  qed
qed

lemma re_search_from_sound:
  "re_search_from p acc s ma = Some (pre, rs, t) \<Longrightarrow> matches (map fst p) rs t"
  by (induction p acc s ma rule: re_search_from.induct)
    (auto split: option.splits dest: re_match_sound)

lemma re_search_from_complete:
  "matches (map fst p) rs t \<Longrightarrow> re_search_from p acc (pre @ concat rs @ t) False \<noteq> None"
proof (induction pre arbitrary: acc)
  case Nil
  define s where "s = concat rs @ t"
  from re_match_complete [OF Nil, of False] have "re_match (map fst p) s False \<noteq> None"
    by (simp add: s_def)
  then show ?case
    unfolding append_Nil s_def [symmetric] by (cases s) auto
next
  case (Cons x pre)
  from Cons.IH [OF Cons.prems, of "acc @ [x]"] show ?case
    by (auto split: option.splits)
qed

lemma list10:
  assumes "length rs = 10"
  obtains r0 r1 r2 r3 r4 r5 r6 r7 r8 r9 where "rs = [r0, r1, r2, r3, r4, r5, r6, r7, r8, r9]"
proof -
  from assms have "length rs = Suc (Suc (Suc (Suc (Suc (Suc (Suc (Suc (Suc (Suc 0)))))))))"
    by simp
  then show ?thesis
    unfolding length_Suc_conv length_0_conv using that by blast
qed

lemma one_lit: "length r = 1 \<and> list_all (\<lambda>x. x = l) r \<longleftrightarrow> r = [l]"
  by (cases r) auto

lemma one_cls: "length r = 1 \<and> list_all P r \<longleftrightarrow> (\<exists>x. r = [x] \<and> P x)"
  by (cases r) auto

lemma matches_RE_CTL_intro:
  assumes "name \<noteq> []" "list_all isword name" "list_all (\<lambda>c. c \<noteq> CHR 0x0A) mid"
    "ty \<noteq> []" "list_all islower_az ty" "list_all isspace sps" "isspace sp"
    "list_all (\<lambda>c. c \<noteq> CHR 0x0A) rest" "t = [] \<or> t = [CHR 0x0A]"
  shows "matches (map fst RE_CTL) [name, mid, ''('', ty, '')'', sps, '':'', [sp], rest, []] t"
  using assms unfolding RE_CTL_def
  by (simp add: list_all_iff)

lemma matches_RE_CTL_elim:
  assumes "matches (map fst RE_CTL) rs t"
  obtains name mid ty sps sp rest where
    "rs = [name, mid, ''('', ty, '')'', sps, '':'', [sp], rest, []]"
    "name \<noteq> []" "list_all isword name" "list_all (\<lambda>c. c \<noteq> CHR 0x0A) mid"
    "ty \<noteq> []" "list_all islower_az ty" "list_all isspace sps" "isspace sp"
    "list_all (\<lambda>c. c \<noteq> CHR 0x0A) rest" "t = [] \<or> t = [CHR 0x0A]"
proof -
  from matches_length [OF assms] have "length rs = 10"
    by (simp add: RE_CTL_def)
  then obtain r0 r1 r2 r3 r4 r5 r6 r7 r8 r9
    where rs: "rs = [r0, r1, r2, r3, r4, r5, r6, r7, r8, r9]"
    by (rule list10)
  from assms have m: "item_ok (Chr Word Plus) r0 (concat [r1, r2, r3, r4, r5, r6, r7, r8, r9] @ t)"
    "item_ok (Chr Any Lazy_Star) r1 (concat [r2, r3, r4, r5, r6, r7, r8, r9] @ t)"
    "item_ok (Chr (Lit CHR ''('') One) r2 (concat [r3, r4, r5, r6, r7, r8, r9] @ t)"
    "item_ok (Chr Lower Plus) r3 (concat [r4, r5, r6, r7, r8, r9] @ t)"
    "item_ok (Chr (Lit CHR '')'') One) r4 (concat [r5, r6, r7, r8, r9] @ t)"
    "item_ok (Chr Space Star) r5 (concat [r6, r7, r8, r9] @ t)"
    "item_ok (Chr (Lit CHR '':'') One) r6 (concat [r7, r8, r9] @ t)"
    "item_ok (Chr Space One) r7 (concat [r8, r9] @ t)"
    "item_ok (Chr Any Star) r8 (concat [r9] @ t)"
    "item_ok End r9 (concat [] @ t)"
    unfolding rs RE_CTL_def by simp_all
  from m(3) have r2: "r2 = ''(''" by (cases r2) auto
  from m(5) have r4: "r4 = '')''" by (cases r4) auto
  from m(7) have r6: "r6 = '':''" by (cases r6) auto
  from m(8) obtain sp where r7: "r7 = [sp]" "isspace sp" by (cases r7) auto
  from m(10) have r9: "r9 = []" "t = [] \<or> t = [CHR 0x0A]" by auto
  from m(1) have r0: "r0 \<noteq> []" "list_all isword r0" by (auto simp: list_all_iff)
  from m(2) have r1: "list_all (\<lambda>c. c \<noteq> CHR 0x0A) r1" by (auto simp: list_all_iff)
  from m(4) have r3: "r3 \<noteq> []" "list_all islower_az r3" by (auto simp: list_all_iff)
  from m(6) have r5: "list_all isspace r5" by (auto simp: list_all_iff)
  from m(9) have r8: "list_all (\<lambda>c. c \<noteq> CHR 0x0A) r8" by (auto simp: list_all_iff)
  show ?thesis
    by (rule that [of r0 r1 r3 r5 sp r8])
      (use rs r0 r1 r2 r3 r4 r5 r6 r7 r8 r9 in simp_all)
qed

lemma groups_RE_CTL:
  "groups RE_CTL [name, mid, a, ty, b, sps, c, d, rest, e] = [name, ty, rest]"
  by (simp add: groups_def group_def ngroups_def RE_CTL_def)

lemma RE_CTL_no_match_at_end:
  "re_search_from RE_CTL [] [] ma = None" "re_search_from RE_CTL [] [CHR 0x0A] ma = None"
  by (simp_all add: RE_CTL_def isword_def isdecimal_char_def islower_az_def ord_def)

lemma re_split_RE_CTL:
  assumes "matches (map fst RE_CTL) rs t"
  obtains pre' name mid ty sps sp rest eol where
    "pre @ concat rs @ t = pre' @ name @ mid @ ''('' @ ty @ '')'' @ sps @ '':'' @ sp # rest @ eol"
    "name \<noteq> []" "list_all isword name" "list_all (\<lambda>c. c \<noteq> CHR 0x0A) mid"
    "ty \<noteq> []" "list_all islower_az ty" "list_all isspace sps" "isspace sp"
    "list_all (\<lambda>c. c \<noteq> CHR 0x0A) rest" "eol = [] \<or> eol = [CHR 0x0A]"
    "re_split RE_CTL (pre @ concat rs @ t) = [pre', name, ty, rest, eol]"
proof -
  let ?line = "pre @ concat rs @ t"
  from re_search_from_complete [OF assms, of "[]" pre]
  obtain pre' rs' t' where s: "re_search_from RE_CTL [] ?line False = Some (pre', rs', t')"
    by auto
  from re_search_from_sound [OF s] have m: "matches (map fst RE_CTL) rs' t'" .
  then obtain name mid ty sps sp rest where rs':
    "rs' = [name, mid, ''('', ty, '')'', sps, '':'', [sp], rest, []]"
    and props: "name \<noteq> []" "list_all isword name" "list_all (\<lambda>c. c \<noteq> CHR 0x0A) mid"
      "ty \<noteq> []" "list_all islower_az ty" "list_all isspace sps" "isspace sp"
      "list_all (\<lambda>c. c \<noteq> CHR 0x0A) rest" "t' = [] \<or> t' = [CHR 0x0A]"
    by (rule matches_RE_CTL_elim)
  from re_search_from_concat [OF s] rs'
  have line: "?line = pre' @ name @ mid @ ''('' @ ty @ '')'' @ sps @ '':'' @ sp # rest @ t'"
    by simp
  have tail: "re_split_from RE_CTL t' False = [t']"
    using props(9)
    by (subst re_split_from.simps) (auto simp: RE_CTL_no_match_at_end simp del: re_search_from.simps)
  have "re_split_from RE_CTL ?line False
      = pre' # groups RE_CTL rs' @ re_split_from RE_CTL t' (concat rs' = [])"
    by (subst re_split_from.simps) (simp add: s del: re_search_from.simps)
  with rs' props(1) tail have "re_split RE_CTL ?line = [pre', name, ty, rest, t']"
    by (simp add: re_split_def groups_RE_CTL)
  with line props show ?thesis
    by (intro that [of pre' name mid ty sps sp rest t'])
qed

lemma minus_not_word: "\<not> isword CHR ''-''"
  by (simp add: isword_def isdecimal_char_def islower_az_def ord_def)

lemma value_text_iff:
  "value_text v \<longleftrightarrow> (\<exists>sg w. v = sg @ w \<and> (sg = [] \<or> sg = ''-'') \<and> w \<noteq> [] \<and> list_all isword w)"
proof
  assume "value_text v"
  then show "\<exists>sg w. v = sg @ w \<and> (sg = [] \<or> sg = ''-'') \<and> w \<noteq> [] \<and> list_all isword w"
    unfolding value_text_def Let_def
    by (cases v) (auto split: if_splits intro: exI [of _ "[]"] exI [of _ "''-''"])
next
  assume "\<exists>sg w. v = sg @ w \<and> (sg = [] \<or> sg = ''-'') \<and> w \<noteq> [] \<and> list_all isword w"
  then obtain sg w where v: "v = sg @ w" "sg = [] \<or> sg = ''-''" "w \<noteq> []" "list_all isword w"
    by blast
  then have "hd w \<noteq> CHR ''-''"
    using minus_not_word by (cases w) auto
  with v show "value_text v"
    unfolding value_text_def Let_def by (cases w) auto
qed

lemma lits_matches:
  "matches (map (\<lambda>c. Chr (Lit c) One) l @ p) rs t \<longleftrightarrow>
     (\<exists>rs'. rs = map (\<lambda>c. [c]) l @ rs' \<and> matches p rs' t)"
proof (induction l arbitrary: rs)
  case Nil
  show ?case by simp
next
  case (Cons c l)
  show ?case
  proof (cases rs)
    case Nil
    then show ?thesis by simp
  next
    case (Cons r rs0)
    have "length r = 1 \<and> list_all (in_cls (Lit c)) r \<longleftrightarrow> r = [c]"
      by (cases r) auto
    with Cons Cons.IH [of rs0] show ?thesis by auto
  qed
qed

lemma sign_word_matches:
  "matches [Chr (Lit CHR ''-'') Opt, Chr Word Plus] rs t \<longleftrightarrow>
     (\<exists>sg w. rs = [sg, w] \<and> (sg = [] \<or> sg = ''-'') \<and> w \<noteq> [] \<and> list_all isword w)"
proof (cases rs)
  case Nil
  then show ?thesis by simp
next
  case (Cons sg rs1)
  note 1 = this
  show ?thesis
  proof (cases rs1)
    case Nil
    with 1 show ?thesis by simp
  next
    case (Cons w rs2)
    have "length sg \<le> 1 \<and> list_all (in_cls (Lit CHR ''-'')) sg \<longleftrightarrow> sg = [] \<or> sg = ''-''"
      by (cases sg) auto
    with 1 Cons show ?thesis
      by (cases rs2) (auto simp: list_all_iff)
  qed
qed

lemma matches_re_attr:
  "matches (map fst (re_attr a)) rs t \<longleftrightarrow>
     (\<exists>sg w. rs = map (\<lambda>c. [c]) (a @ ''='') @ [sg, w]
        \<and> (sg = [] \<or> sg = ''-'') \<and> w \<noteq> [] \<and> list_all isword w)"
proof -
  have "map fst (re_attr a)
      = map (\<lambda>c. Chr (Lit c) One) (a @ ''='') @ [Chr (Lit CHR ''-'') Opt, Chr Word Plus]"
    by (simp add: re_attr_def comp_def)
  then show ?thesis
    by (simp only: lits_matches sign_word_matches) blast
qed

lemma group_lits:
  "group (map (\<lambda>c. (Chr (Lit c) One, 0)) l @ p) (map (\<lambda>c. [c]) l @ rs) (Suc 0) = group p rs (Suc 0)"
  by (induction l) (simp_all add: group_def)

lemma group_re_attr: "group (re_attr a) (map (\<lambda>c. [c]) (a @ ''='') @ [sg, w]) 1 = sg @ w"
  unfolding re_attr_def One_nat_def group_lits by (simp add: group_def)

lemma concat_singletons: "concat (map (\<lambda>c. [c]) l) = l"
  by (induction l) simp_all

lemma re_search_attr_Some:
  assumes "re_search (re_attr a) rest = Some (pre, rs, t)"
  shows "occurs_as a (group (re_attr a) rs 1) rest"
proof -
  from assms have s: "re_search_from (re_attr a) [] rest False = Some (pre, rs, t)"
    by (simp add: re_search_def)
  from re_search_from_sound [OF s] obtain sg w
    where rs: "rs = map (\<lambda>c. [c]) (a @ ''='') @ [sg, w]"
      and v: "sg = [] \<or> sg = ''-''" "w \<noteq> []" "list_all isword w"
    unfolding matches_re_attr by blast
  from re_search_from_concat [OF s] rs have "rest = pre @ a @ ''='' @ (sg @ w) @ t"
    by (simp add: concat_singletons)
  moreover from v have "value_text (sg @ w)"
    unfolding value_text_iff by blast
  ultimately show ?thesis
    unfolding rs group_re_attr occurs_as_def by blast
qed

lemma re_search_attr_None:
  assumes "re_search (re_attr a) rest = None"
  shows "\<not> occurs_as a v rest"
proof
  assume "occurs_as a v rest"
  then obtain pre post sg w where rest: "rest = pre @ a @ ''='' @ (sg @ w) @ post"
    and v: "sg = [] \<or> sg = ''-''" "w \<noteq> []" "list_all isword w"
    unfolding occurs_as_def value_text_iff by blast
  let ?rs = "map (\<lambda>c. [c]) (a @ ''='') @ [sg, w]"
  from v have "matches (map fst (re_attr a)) ?rs post"
    unfolding matches_re_attr by blast
  from re_search_from_complete [OF this, of "[]" pre]
  have "re_search_from (re_attr a) [] (pre @ concat ?rs @ post) False \<noteq> None" .
  moreover have "pre @ concat ?rs @ post = rest"
    unfolding rest by (simp add: concat_singletons del: map_append)
  ultimately show False
    using assms by (simp add: re_search_def)
qed

lemma attrs_loop_lookup:
  assumes "distinct (map fst ps)"
  shows "map_of (attrs_loop ps rest ctl) k =
     (case map_of ps k of
        None \<Rightarrow> map_of ctl k
      | Some re \<Rightarrow>
          (case re_search re rest of
             None \<Rightarrow> map_of ctl k
           | Some (pre, rs, t) \<Rightarrow> Some (stored_value (group re rs 1))))"
  using assms
proof (induction ps arbitrary: ctl)
  case Nil
  show ?case by simp
next
  case (Cons p ps)
  obtain a re where p: "p = (a, re)" by (cases p)
  with Cons.prems have d: "distinct (map fst ps)" and a: "map_of ps a = None"
    by (auto simp: map_of_eq_None_iff)
  show ?case
  proof (cases "re_search re rest")
    case None
    with p a Cons.IH [OF d, of ctl] show ?thesis by auto
  next
    case (Some m)
    obtain pre rs t where m: "m = (pre, rs, t)" by (cases m)
    let ?ctl = "AList.update a (stored_value (group re rs 1)) ctl"
    from Some m p have "attrs_loop (p # ps) rest ctl = attrs_loop ps rest ?ctl"
      by (simp add: stored_value_def Let_def)
    with Cons.IH [OF d, of ?ctl] Some m p a show ?thesis
      by (auto simp: update_conv' split: option.splits)
  qed
qed

lemma attrs_loop_keys: "fst ` set (attrs_loop ps rest ctl) \<subseteq> fst ` set ctl \<union> fst ` set ps"
proof (induction ps arbitrary: ctl)
  case Nil
  show ?case by simp
next
  case (Cons p ps)
  obtain a re where p: "p = (a, re)" by (cases p)
  show ?case
  proof (cases "re_search re rest")
    case None
    with p Cons.IH [of ctl] show ?thesis by auto
  next
    case (Some m)
    obtain pre rs t where m: "m = (pre, rs, t)" by (cases m)
    from Some m p Cons.IH [of "AList.update a (stored_value (group re rs 1)) ctl"]
    show ?thesis
      by (auto simp: stored_value_def dom_update Let_def)
  qed
qed

lemma re_attrs_lookup:
  "a \<in> set ATTRS \<Longrightarrow> map_of re_attrs a = Some (re_attr a)"
  "distinct (map fst re_attrs)" "fst ` set re_attrs = set ATTRS" "''type'' \<notin> set ATTRS"
  by (auto simp: re_attrs_def ATTRS_def)

lemma ctl_line_matches:
  assumes "ctl_line line name ty rest"
  obtains pre rs t where "line = pre @ concat rs @ t" "matches (map fst RE_CTL) rs t"
proof -
  from assms obtain pre mid sps sp eol where
    line: "line = pre @ name @ mid @ ''('' @ ty @ '')'' @ sps @ '':'' @ sp # rest @ eol"
    and p: "name \<noteq> []" "list_all isword name" "list_all (\<lambda>c. c \<noteq> CHR 0x0A) mid"
      "ty \<noteq> []" "list_all islower_az ty" "list_all isspace sps" "isspace sp"
      "list_all (\<lambda>c. c \<noteq> CHR 0x0A) rest" "eol = [] \<or> eol = [CHR 0x0A]"
    unfolding ctl_line_def by blast
  let ?rs = "[name, mid, ''('', ty, '')'', sps, '':'', [sp], rest, []]"
  have "matches (map fst RE_CTL) ?rs eol"
    using p by (rule matches_RE_CTL_intro)
  moreover have "line = pre @ concat ?rs @ eol"
    using line by simp
  ultimately show ?thesis by (rule that [rotated])
qed

text \<open>
  When the loop of \<^verbatim>\<open>get_ctls\<close> comes to the line of a control, it stores a control
  under a name of the line and goes on with the next line. The control has the type of
  the line, and of the attributes \<^verbatim>\<open>min\<close>, \<^verbatim>\<open>max\<close>, \<^verbatim>\<open>step\<close>,
  \<^verbatim>\<open>default\<close>, \<^verbatim>\<open>value\<close> and \<^verbatim>\<open>flags\<close> those that occur with a value in the
  remainder, each with such a value as an integer or as a text; it has no other
  attribute. On a listing of such lines only, the loop ends without an exception.
\<close>

lemma lines_loop_matching_line:
  assumes "ctl_line line n0 t0 r0"
  shows "\<exists>name ty rest ctl. ctl_line line name ty rest
     \<and> lines_loop (line # ls) s = lines_loop ls (s\<lparr>ctrls := AList.update name ctl (ctrls s)\<rparr>)
     \<and> map_of ctl ''type'' = Some (PyStr ty)
     \<and> (\<forall>a\<in>set ATTRS.
           (map_of ctl a = None \<longrightarrow> (\<forall>v. \<not> occurs_as a v rest))
           \<and> (\<forall>x. map_of ctl a = Some x \<longrightarrow> (\<exists>v. occurs_as a v rest \<and> x = stored_value v)))
     \<and> fst ` set ctl \<subseteq> insert ''type'' (set ATTRS)"
proof -
  from assms obtain pre rs t where line: "line = pre @ concat rs @ t"
    and m: "matches (map fst RE_CTL) rs t"
    by (rule ctl_line_matches)
  from m obtain pre' name mid ty sps sp rest eol where
    eq: "pre @ concat rs @ t = pre' @ name @ mid @ ''('' @ ty @ '')'' @ sps @ '':'' @ sp # rest @ eol"
    and p: "name \<noteq> []" "list_all isword name" "list_all (\<lambda>c. c \<noteq> CHR 0x0A) mid"
      "ty \<noteq> []" "list_all islower_az ty" "list_all isspace sps" "isspace sp"
      "list_all (\<lambda>c. c \<noteq> CHR 0x0A) rest" "eol = [] \<or> eol = [CHR 0x0A]"
    and split: "re_split RE_CTL (pre @ concat rs @ t) = [pre', name, ty, rest, eol]"
    by (rule re_split_RE_CTL)
  have cl: "ctl_line line name ty rest"
    unfolding ctl_line_def line using eq p by blast
  define ctl where "ctl = attrs_loop re_attrs rest [(''type'', PyStr ty)]"
  have step: "lines_loop (line # ls) s = lines_loop ls (s\<lparr>ctrls := AList.update name ctl (ctrls s)\<rparr>)"
    unfolding line by (simp add: split Let_def ctl_def)
  have look: "map_of ctl k =
     (case map_of re_attrs k of
        None \<Rightarrow> map_of [(''type'', PyStr ty)] k
      | Some re \<Rightarrow>
          (case re_search re rest of
             None \<Rightarrow> map_of [(''type'', PyStr ty)] k
           | Some (pre, rs, t) \<Rightarrow> Some (stored_value (group re rs 1))))" for k
    unfolding ctl_def by (rule attrs_loop_lookup) (rule re_attrs_lookup(2))
  have "map_of re_attrs ''type'' = None"
    using re_attrs_lookup(3,4) by (simp add: map_of_eq_None_iff)
  with look [of "''type''"] have ty: "map_of ctl ''type'' = Some (PyStr ty)"
    by simp
  have attrs: "(map_of ctl a = None \<longrightarrow> (\<forall>v. \<not> occurs_as a v rest))
      \<and> (\<forall>x. map_of ctl a = Some x \<longrightarrow> (\<exists>v. occurs_as a v rest \<and> x = stored_value v))"
    if a: "a \<in> set ATTRS" for a
  proof (cases "re_search (re_attr a) rest")
    case None
    from a re_attrs_lookup(4) have "a \<noteq> ''type''" by auto
    with None look [of a] re_attrs_lookup(1) [OF a] have "map_of ctl a = None"
      by simp
    with re_search_attr_None [OF None] show ?thesis by simp
  next
    case (Some r)
    obtain pre rs t where r: "r = (pre, rs, t)" by (cases r)
    from Some r look [of a] re_attrs_lookup(1) [OF a]
    have "map_of ctl a = Some (stored_value (group (re_attr a) rs 1))"
      by simp
    with re_search_attr_Some [of a rest pre rs t] Some r show ?thesis
      by auto
  qed
  have keys: "fst ` set ctl \<subseteq> insert ''type'' (set ATTRS)"
    unfolding ctl_def using attrs_loop_keys [of re_attrs rest "[(''type'', PyStr ty)]"]
    by (simp add: re_attrs_lookup(3))
  from cl step ty attrs keys show ?thesis by blast
qed

lemma lines_loop_all_match:
  assumes "\<forall>line\<in>set ls. \<exists>name ty rest. ctl_line line name ty rest"
  shows "fst (lines_loop ls s) = Inr ()"
  using assms
proof (induction ls arbitrary: s)
  case Nil
  show ?case by simp
next
  case (Cons line ls)
  then obtain n0 t0 r0 where "ctl_line line n0 t0 r0" by auto
  from lines_loop_matching_line [OF this, of ls s] obtain name ctl where
    "lines_loop (line # ls) s = lines_loop ls (s\<lparr>ctrls := AList.update name ctl (ctrls s)\<rparr>)"
    by blast
  with Cons show ?case by simp
qed

section \<open>\<^verbatim>\<open>get_ctls\<close> on a listing with a line that is no control\<close>

text \<open>
  Newer versions of \<^verbatim>\<open>v4l2-ctl\<close> print a header such as \<^verbatim>\<open>User Controls\<close> before
  the controls of a class.
\<close>

definition header_line :: string where
  "header_line = ''User Controls'' @ [CHR 0x0A]"

definition brightness_line :: string where
  "brightness_line =
     ''                     brightness 0x00980900 (int)    : min=-64 max=64 step=1 default=0 value=0''
     @ [CHR 0x0A]"

text \<open>
  C3. A line that does not match the pattern is to be skipped. \<^verbatim>\<open>RE_CTL.split\<close>
  returns the list of the one line for it, which is not empty, so that
  \<^verbatim>\<open>if not m: continue\<close> is not taken and \<^verbatim>\<open>m[1]\<close> raises \<^verbatim>\<open>IndexError\<close>:
  \<^verbatim>\<open>get_ctls\<close> raises on the listing of one header line.
\<close>

theorem get_ctls_raises_on_header:
  "re_split RE_CTL header_line = [header_line]
   \<and> fst (init [] (printing [header_line])) = Inl IndexError"
  by code_simp

text \<open>
  C2. Every line that matches the pattern is to be stored under its name. The line of
  the control \<^verbatim>\<open>brightness\<close> matches, and on its own it is stored with its type
  and its attributes; after a header line it is not reached, because \<^verbatim>\<open>get_ctls\<close>
  raises on the header, and the cache stays empty.
\<close>

theorem get_ctls_misses_line_after_header:
  "re_split RE_CTL brightness_line
     = [''                     '', ''brightness'', ''int'',
        ''min=-64 max=64 step=1 default=0 value=0'', [CHR 0x0A]]
   \<and> fst (init [] (printing [header_line, brightness_line])) = Inl IndexError
   \<and> ctrls (snd (init [] (printing [header_line, brightness_line]))) = []
   \<and> ctrls (snd (init [] (printing [brightness_line]))) =
       [(''brightness'', [(''type'', PyStr ''int''), (''min'', PyInt (- 64)), (''max'', PyInt 64),
          (''step'', PyInt 1), (''default'', PyInt 0), (''value'', PyInt 0)])]"
  by code_simp

section \<open>The configuration file\<close>






















subsection \<open>\<^verbatim>\<open>Window.sync\<close> and \<^verbatim>\<open>Window.action_Slot\<close>\<close>












































end
